theory Spec2Isabelle
  imports Complex_Main "HOL-Library.Log_Nat"
begin

section \<open>Bagging ensemble of squeezenet\_bagging.py\<close>

text \<open>
  The development embeds the two pieces of \<^verbatim>\<open>squeezenet_bagging.py\<close> that carry the
  bagging logic: \<^verbatim>\<open>bagging_loader\<close> (drawing one bag of indices and wrapping it in a
  loader) and \<^verbatim>\<open>models_bagging\<close> (evaluating every member on the test loader and voting
  on the averaged probabilities).

  A float is modelled by the rational number it denotes, and every float operation by
  the exact operation followed by rounding to the nearest float of the format, ties to
  the even significand (\<open>fl32\<close> for the float32 tensors, \<open>fl64\<close> for Python floats).
  All tensors that occur are one-dimensional and are modelled as lists.

  The vote of lines 278 to 281 is given twice. \<open>aggregate32\<close> is the vote as the
  program runs it, in float32 arithmetic and with \<^verbatim>\<open>nan\<close>; \<open>models_bagging\<close> calls it.
  \<open>aggregate\<close> is the same vote with the rounding of the arithmetic left out; it has the
  same control flow, shapes, errors and label rounding, and serves the properties that
  do not depend on the rounding of sums and quotients.
\<close>

subsection \<open>Errors and values\<close>

datatype error =
  ZeroDivisionError | TypeError | RuntimeError | ValueError | IndexError | OverflowError | OSError

type_synonym tensor = "rat list"

text \<open>A float32 value: a number or \<^verbatim>\<open>nan\<close>.\<close>

datatype scalar = NaN | Num rat

subsection \<open>Rounding primitives\<close>

text \<open>
  \<^verbatim>\<open>torch.round\<close> and Python's built-in \<^verbatim>\<open>round\<close> both round to the nearest integer and
  resolve a tie towards the even neighbour.
\<close>

definition round_half_even :: "rat \<Rightarrow> int" where
  "round_half_even x =
     (let f = \<lfloor>x\<rfloor>; d = x - of_int f
      in if d < 1 / 2 then f
         else if 1 / 2 < d then f + 1
         else if even f then f else f + 1)"

definition torch_round :: "rat \<Rightarrow> rat" where
  "torch_round x = of_int (round_half_even x)"

definition python_round :: "rat \<Rightarrow> int" where
  "python_round x = round_half_even x"

subsection \<open>Tensor operations with broadcasting\<close>

text \<open>
  A binary elementwise operation on two one-dimensional tensors: equal sizes combine
  pointwise, a tensor of size one is broadcast against the other, any other pair of
  sizes raises \<^verbatim>\<open>RuntimeError\<close>.
\<close>

definition broadcast :: "(rat \<Rightarrow> rat \<Rightarrow> rat) \<Rightarrow> tensor \<Rightarrow> tensor \<Rightarrow> error + tensor" where
  "broadcast f a b =
     (if length a = length b then Inr (map2 f a b)
      else if length a = 1 then Inr (map (f (hd a)) b)
      else if length b = 1 then Inr (map (\<lambda>x. f x (hd b)) a)
      else Inl RuntimeError)"

text \<open>
  \<^verbatim>\<open>sum(value)\<close>: Python's \<^verbatim>\<open>sum\<close> starts from the integer \<^verbatim>\<open>0\<close> and adds the
  values from left to right. The accumulator \<open>None\<close> is that integer \<^verbatim>\<open>0\<close>;
  \<^verbatim>\<open>0 + t\<close> is \<open>t\<close>.
\<close>

fun py_sum :: "tensor option \<Rightarrow> tensor list \<Rightarrow> error + tensor option" where
  "py_sum acc [] = Inr acc"
| "py_sum None (t # ts) = py_sum (Some t) ts"
| "py_sum (Some a) (t # ts) =
     (case broadcast (+) a t of
        Inl e \<Rightarrow> Inl e
      | Inr s \<Rightarrow> py_sum (Some s) ts)"

text \<open>\<^verbatim>\<open>(a == b).float()\<close>, elementwise with the same broadcasting.\<close>

definition eq_float :: "rat \<Rightarrow> rat \<Rightarrow> rat" where
  "eq_float a b = (if a = b then 1 else 0)"

definition torch_mean :: "tensor \<Rightarrow> scalar" where
  "torch_mean t = (if t = [] then NaN else Num (sum_list t / of_nat (length t)))"

subsection \<open>The vote of \<^verbatim>\<open>models_bagging\<close> (lines 278 to 281)\<close>

text \<open>
  \<^verbatim>\<open>pred_dic\<close> is keyed by \<^verbatim>\<open>model_list_logits.index(model)\<close>, so its keys are
  positions of \<^verbatim>\<open>model_list_logits\<close>. It is modelled as a list with one slot for each
  position: slot \<open>k\<close> is \<open>Some t\<close> when \<^verbatim>\<open>pred_dic[k]\<close> is \<open>t\<close> and \<open>None\<close> when the key
  is absent. The length of the list is \<^verbatim>\<open>len(model_list_logits)\<close>. Slots are filled in
  increasing order of \<open>k\<close>, so \<^verbatim>\<open>pred_dic.values()\<close> lists the present slots from left to
  right.
\<close>

type_synonym pred_dic = "tensor option list"

definition dict_values :: "pred_dic \<Rightarrow> tensor list" where
  "dict_values pd = List.map_filter id pd"

text \<open>
  Lines 278 to 280. When the dictionary is empty \<^verbatim>\<open>total\<close> is the integer \<^verbatim>\<open>0\<close>:
  dividing it by \<^verbatim>\<open>len(model_list_logits) = 0\<close> raises \<^verbatim>\<open>ZeroDivisionError\<close>, and
  otherwise the quotient is a Python float, which \<^verbatim>\<open>torch.round\<close> rejects with
  \<^verbatim>\<open>TypeError\<close>. The result is the pair of \<^verbatim>\<open>total/len(model_list_logits)\<close> and
  \<^verbatim>\<open>pred_list\<close>.
\<close>

definition consensus :: "pred_dic \<Rightarrow> error + (tensor \<times> tensor)" where
  "consensus pd =
     (case py_sum None (dict_values pd) of
        Inl e \<Rightarrow> Inl e
      | Inr None \<Rightarrow> if length pd = 0 then Inl ZeroDivisionError else Inl TypeError
      | Inr (Some tot) \<Rightarrow>
          (let mean = map (\<lambda>x. x / of_nat (length pd)) tot
           in Inr (mean, map torch_round mean)))"

record vote =
  mean_prob :: tensor
  pred_list :: tensor
  test_acc :: scalar

text \<open>Lines 278 to 281: the consensus, then the accuracy against \<^verbatim>\<open>labels_tensor\<close>.\<close>

definition aggregate :: "pred_dic \<Rightarrow> tensor \<Rightarrow> error + vote" where
  "aggregate pd labels_tensor =
     (case consensus pd of
        Inl e \<Rightarrow> Inl e
      | Inr (mean, preds) \<Rightarrow>
          (case broadcast eq_float preds labels_tensor of
             Inl e \<Rightarrow> Inl e
           | Inr hits \<Rightarrow>
               Inr \<lparr>mean_prob = mean, pred_list = preds, test_acc = torch_mean hits\<rparr>))"

subsection \<open>Rounding to a float format\<close>

text \<open>
  \<open>float_exponent x\<close> is the exponent \<open>e\<close> with \<open>2\<^sup>e \<le> \<bar>x\<bar> < 2\<^sup>e\<^sup>+\<^sup>1\<close>, for \<open>x\<close> other than 0. A
  format with \<open>p\<close> significand bits and least exponent \<open>emin\<close> holds the multiples of
  \<open>quantum p emin x\<close> around \<open>x\<close> (below \<open>2\<^sup>e\<^sup>m\<^sup>i\<^sup>n\<close> the spacing of the subnormal numbers);
  \<open>fl_round\<close> rounds to the nearest of them, ties to even. Overflow to infinity is not
  part of \<open>fl_round\<close>; where it can happen the caller tests for it.
\<close>

definition float_exponent :: "rat \<Rightarrow> int" where
  "float_exponent x =
     (let (a, b) = quotient_of \<bar>x\<bar>; d = bitlen a - bitlen b
      in if 2 powi d \<le> \<bar>x\<bar> then d else d - 1)"

definition quantum :: "nat \<Rightarrow> int \<Rightarrow> rat \<Rightarrow> rat" where
  "quantum p emin x = 2 powi (max (float_exponent x) emin - int p + 1)"

definition fl_round :: "nat \<Rightarrow> int \<Rightarrow> rat \<Rightarrow> rat" where
  "fl_round p emin x =
     (if x = 0 then 0
      else of_int (round_half_even (x / quantum p emin x)) * quantum p emin x)"

definition fl32 :: "rat \<Rightarrow> rat" where
  "fl32 = fl_round 24 (- 126)"

definition fl64 :: "rat \<Rightarrow> rat" where
  "fl64 = fl_round 53 (- 1022)"

subsection \<open>The vote in float32 arithmetic\<close>

text \<open>
  Elementwise float32 operations. \<^verbatim>\<open>nan\<close> is absorbing in sums, quotients and
  \<^verbatim>\<open>torch.round\<close>, and equal to nothing. The divisor of \<open>fdiv32\<close> is a Python integer,
  converted to float32; it is the number of members and never 0 where a tensor is
  divided.
\<close>

type_synonym tensor32 = "scalar list"

definition fadd32 :: "scalar \<Rightarrow> scalar \<Rightarrow> scalar" where
  "fadd32 a b = (case (a, b) of (Num x, Num y) \<Rightarrow> Num (fl32 (x + y)) | _ \<Rightarrow> NaN)"

definition fdiv32 :: "scalar \<Rightarrow> nat \<Rightarrow> scalar" where
  "fdiv32 a n = (case a of Num x \<Rightarrow> Num (fl32 (x / fl32 (of_nat n))) | NaN \<Rightarrow> NaN)"

definition round32 :: "scalar \<Rightarrow> scalar" where
  "round32 a = (case a of Num x \<Rightarrow> Num (of_int (round_half_even x)) | NaN \<Rightarrow> NaN)"

definition eq32 :: "scalar \<Rightarrow> scalar \<Rightarrow> rat" where
  "eq32 a b = (case (a, b) of (Num x, Num y) \<Rightarrow> if x = y then 1 else 0 | _ \<Rightarrow> 0)"

text \<open>
  \<^verbatim>\<open>torch.mean\<close> of a float32 tensor of zeros and ones: their sum is exact in float32
  for fewer than \<open>2\<^sup>2\<^sup>4\<close> elements, and the quotient is rounded once.
\<close>

definition torch_mean32 :: "rat list \<Rightarrow> scalar" where
  "torch_mean32 t = (if t = [] then NaN else Num (fl32 (sum_list t / of_nat (length t))))"

text \<open>Broadcasting as in \<open>broadcast\<close>, for any element types.\<close>

definition tensor_op :: "('a \<Rightarrow> 'b \<Rightarrow> 'c) \<Rightarrow> 'a list \<Rightarrow> 'b list \<Rightarrow> error + 'c list" where
  "tensor_op f a b =
     (if length a = length b then Inr (map2 f a b)
      else if length a = 1 then Inr (map (f (hd a)) b)
      else if length b = 1 then Inr (map (\<lambda>x. f x (hd b)) a)
      else Inl RuntimeError)"

fun py_sum32 :: "tensor32 option \<Rightarrow> tensor32 list \<Rightarrow> error + tensor32 option" where
  "py_sum32 acc [] = Inr acc"
| "py_sum32 None (t # ts) = py_sum32 (Some t) ts"
| "py_sum32 (Some a) (t # ts) =
     (case tensor_op fadd32 a t of
        Inl e \<Rightarrow> Inl e
      | Inr s \<Rightarrow> py_sum32 (Some s) ts)"

type_synonym pred_dic32 = "tensor32 option list"

definition consensus32 :: "pred_dic32 \<Rightarrow> error + (tensor32 \<times> tensor32)" where
  "consensus32 pd =
     (case py_sum32 None (List.map_filter id pd) of
        Inl e \<Rightarrow> Inl e
      | Inr None \<Rightarrow> if length pd = 0 then Inl ZeroDivisionError else Inl TypeError
      | Inr (Some tot) \<Rightarrow>
          (let mean = map (\<lambda>x. fdiv32 x (length pd)) tot
           in Inr (mean, map round32 mean)))"

record vote32 =
  consensus_prob :: tensor32
  consensus_label :: tensor32
  accuracy :: scalar

definition aggregate32 :: "pred_dic32 \<Rightarrow> tensor32 \<Rightarrow> error + vote32" where
  "aggregate32 pd labels_tensor =
     (case consensus32 pd of
        Inl e \<Rightarrow> Inl e
      | Inr (mean, preds) \<Rightarrow>
          (case tensor_op eq32 preds labels_tensor of
             Inl e \<Rightarrow> Inl e
           | Inr hits \<Rightarrow>
               Inr \<lparr>consensus_prob = mean, consensus_label = preds,
                    accuracy = torch_mean32 hits\<rparr>))"

text \<open>
  What lines 279 and 280 compute at one sample from the members' values there, in
  member order: the sum from left to right, starting from Python's \<^verbatim>\<open>0\<close>, then the
  quotient by the number of members. \<open>float32_sum\<close> is the sum for numbers.
\<close>

fun float32_total :: "scalar list \<Rightarrow> scalar" where
  "float32_total [] = Num 0"
| "float32_total (p # ps) = foldl fadd32 p ps"

definition float32_mean :: "scalar list \<Rightarrow> scalar" where
  "float32_mean ps = fdiv32 (float32_total ps) (length ps)"

fun float32_sum :: "rat list \<Rightarrow> rat" where
  "float32_sum [] = 0"
| "float32_sum (x # xs) = foldl (\<lambda>a b. fl32 (a + b)) x xs"

subsection \<open>The dataset\<close>

text \<open>
  \<^verbatim>\<open>CovidDataset\<close> keeps the list \<^verbatim>\<open>self.images\<close> of image paths. Of a path only the
  name of its parent directory decides the label. An image is identified with its path:
  the test transform is deterministic, so the tensor a member sees is a function of the
  path. \<^verbatim>\<open>__getitem__\<close> opens the file: \<open>readable\<close> tells for which paths
  \<^verbatim>\<open>Image.open(img_path).convert("RGB")\<close> succeeds; for the others it raises an
  \<^verbatim>\<open>OSError\<close> (a missing file, or one that is not an image).
\<close>

record image_path =
  parent_name :: string
  file_name :: string

record CovidDataset =
  images :: "image_path list"

type_synonym sample = "image_path \<times> rat"

definition dataset_len :: "CovidDataset \<Rightarrow> nat" where
  "dataset_len ds = length (images ds)"

text \<open>Line 99: the label of an image.\<close>

definition label_of :: "image_path \<Rightarrow> rat" where
  "label_of img_path = (if parent_name img_path = ''CT_COVID'' then 1 else 0)"

definition getitem :: "CovidDataset \<Rightarrow> (image_path \<Rightarrow> bool) \<Rightarrow> nat \<Rightarrow> error + sample" where
  "getitem ds readable index =
     (if index < length (images ds)
      then (let img_path = images ds ! index;
                label = label_of img_path
            in if readable img_path then Inr (img_path, label) else Inl OSError)
      else Inl IndexError)"

subsection \<open>Data loaders\<close>

definition BATCH_SIZE :: nat where
  "BATCH_SIZE = 8"

datatype sampler = SequentialSampler | RandomSampler | SubsetRandomSampler "nat list"

record DataLoader =
  dataset :: CovidDataset
  sampler :: sampler
  batch_size :: nat
  drop_last :: bool

text \<open>
  The constructor of \<^verbatim>\<open>torch.utils.data.DataLoader\<close>, for the arguments the program
  passes: an explicit sampler together with \<^verbatim>\<open>shuffle=True\<close> is refused; without a
  sampler the loader is sequential, or random when shuffled (and a random sampler over
  an empty dataset is refused).
\<close>

definition DataLoader_init ::
    "CovidDataset \<Rightarrow> sampler option \<Rightarrow> nat \<Rightarrow> bool \<Rightarrow> bool \<Rightarrow> error + DataLoader" where
  "DataLoader_init ds smp bs dl shuffle =
     (case smp of
        Some s \<Rightarrow>
          if shuffle then Inl ValueError
          else Inr \<lparr>dataset = ds, sampler = s, batch_size = bs, drop_last = dl\<rparr>
      | None \<Rightarrow>
          if shuffle
          then (if dataset_len ds = 0 then Inl ValueError
                else Inr \<lparr>dataset = ds, sampler = RandomSampler, batch_size = bs, drop_last = dl\<rparr>)
          else Inr \<lparr>dataset = ds, sampler = SequentialSampler, batch_size = bs, drop_last = dl\<rparr>)"

text \<open>
  \<^verbatim>\<open>BatchSampler\<close>: consecutive groups of \<open>bs\<close> indices; a final shorter group is kept
  only when \<^verbatim>\<open>drop_last\<close> is false.
\<close>

function batch_sampler :: "nat \<Rightarrow> bool \<Rightarrow> nat list \<Rightarrow> nat list list" where
  "batch_sampler bs dl order =
     (if bs = 0 \<or> order = [] then []
      else if length order < bs then (if dl then [] else [order])
      else take bs order # batch_sampler bs dl (drop bs order))"
  by pat_completeness auto
termination
  by (relation "measure (\<lambda>(bs, dl, order). length order)") auto

text \<open>
  Every selection of \<open>k\<close> distinct positions of a pool, in every order: the results
  \<^verbatim>\<open>random.sample(pool, k)\<close> can return for \<open>k\<close> up to the size of the pool. With
  \<open>k\<close> the size of the pool these are the permutations, the orders in which the random
  samplers can visit their indices.
\<close>

fun samples :: "'a list \<Rightarrow> nat \<Rightarrow> 'a list list" where
  "samples pool 0 = [[]]"
| "samples pool (Suc k) =
     concat (map (\<lambda>j. map ((#) (pool ! j)) (samples (take j pool @ drop (Suc j) pool) k))
                 [0..<length pool])"

text \<open>The index orders one pass over a loader can follow.\<close>

definition sampler_orders :: "DataLoader \<Rightarrow> nat list set" where
  "sampler_orders L =
     (case sampler L of
        SequentialSampler \<Rightarrow> {[0..<dataset_len (dataset L)]}
      | RandomSampler \<Rightarrow> set (samples [0..<dataset_len (dataset L)] (dataset_len (dataset L)))
      | SubsetRandomSampler idx \<Rightarrow> set (samples idx (length idx)))"

text \<open>The batches of indices one pass can yield.\<close>

definition loader_batches :: "DataLoader \<Rightarrow> nat list list set" where
  "loader_batches L = batch_sampler (batch_size L) (drop_last L) ` sampler_orders L"

type_synonym batch = "image_path list \<times> tensor32"

text \<open>Fetching and collating one batch: the images, and the labels as one tensor.\<close>

fun fetch :: "CovidDataset \<Rightarrow> (image_path \<Rightarrow> bool) \<Rightarrow> nat list \<Rightarrow> error + batch" where
  "fetch ds readable [] = Inr ([], [])"
| "fetch ds readable (i # is) =
     (case getitem ds readable i of
        Inl e \<Rightarrow> Inl e
      | Inr (x, y) \<Rightarrow>
          (case fetch ds readable is of
             Inl e \<Rightarrow> Inl e
           | Inr (xs, ys) \<Rightarrow> Inr (x # xs, Num y # ys)))"

text \<open>
  One pass over a loader whose sampler is sequential: the batches in order, each either
  fetched or the error its fetching raises. The loop that consumes the pass stops at
  the first error.
\<close>

definition sequential_pass :: "DataLoader \<Rightarrow> (image_path \<Rightarrow> bool) \<Rightarrow> (error + batch) list" where
  "sequential_pass L readable =
     map (fetch (dataset L) readable)
       (batch_sampler (batch_size L) (drop_last L) [0..<dataset_len (dataset L)])"

text \<open>
  Line 291: \<^verbatim>\<open>DataLoader(testset, batch_size=BATCH_SIZE, drop_last=True, shuffle=False)\<close>.
\<close>

definition test_loader :: "CovidDataset \<Rightarrow> error + DataLoader" where
  "test_loader testset = DataLoader_init testset None BATCH_SIZE True False"

subsection \<open>\<^verbatim>\<open>models_bagging\<close>\<close>

text \<open>
  Line 272 passes every output of a member through \<^verbatim>\<open>torch.sigmoid\<close>, so what a member
  contributes for an image is a float32 number between 0 and 1, or \<^verbatim>\<open>nan\<close> when the
  network's output is \<^verbatim>\<open>nan\<close>. An ensemble member in evaluation mode is the function
  that sends an image to that value.
\<close>

typedef probability = "{NaN} \<union> {Num x | x. 0 \<le> x \<and> x \<le> 1 \<and> fl32 x = x}"
  by blast

type_synonym member = "image_path \<Rightarrow> probability"

text \<open>
  The inner loop (lines 270 to 275) for the member at position \<open>k\<close>, on the state
  \<^verbatim>\<open>(labels_tensor, logits_tensor, pred_dic)\<close>. \<^verbatim>\<open>forward\<close> ends in \<^verbatim>\<open>x.squeeze()\<close>:
  on a batch of one image its result is zero-dimensional and \<^verbatim>\<open>torch.cat\<close> raises
  \<^verbatim>\<open>RuntimeError\<close>.
\<close>

fun run_batches ::
    "member \<Rightarrow> nat \<Rightarrow> (error + batch) list \<Rightarrow> tensor32 \<times> tensor32 \<times> pred_dic32
      \<Rightarrow> error + tensor32 \<times> tensor32 \<times> pred_dic32" where
  "run_batches model k [] s = Inr s"
| "run_batches model k (Inl e # bs) s = Inl e"
| "run_batches model k (Inr (input, labels) # bs) (labels_tensor, logits_tensor, pd) =
     (if length input = 1 then Inl RuntimeError
      else (let logits = map (\<lambda>x. Rep_probability (model x)) input;
                labels_tensor = labels_tensor @ labels;
                logits_tensor = logits_tensor @ logits
            in run_batches model k bs (labels_tensor, logits_tensor, pd[k := Some logits_tensor])))"

text \<open>
  The outer loop (lines 263 to 275) over the members with their positions, on the state
  \<^verbatim>\<open>(labels_tensor, pred_dic)\<close>; each member starts from two empty tensors and makes its
  own pass over the loader. The members are distinct objects, so
  \<^verbatim>\<open>model_list_logits.index(model)\<close> is the position of the member. \<^verbatim>\<open>pred_dic\<close> has one
  slot for each position, as in the vote.
\<close>

fun run_models ::
    "(error + batch) list \<Rightarrow> (nat \<times> member) list \<Rightarrow> tensor32 \<times> pred_dic32
      \<Rightarrow> error + tensor32 \<times> pred_dic32" where
  "run_models loader [] s = Inr s"
| "run_models loader ((k, model) # ms) (labels_tensor, pd) =
     (case run_batches model k loader ([], [], pd) of
        Inl e \<Rightarrow> Inl e
      | Inr (labels_tensor, logits_tensor, pd) \<Rightarrow> run_models loader ms (labels_tensor, pd))"

text \<open>
  \<^verbatim>\<open>models_bagging\<close> from line 263 on, for the loaded members and the pass every member
  makes over the test loader. Before the first member \<^verbatim>\<open>labels_tensor\<close> is unbound; it
  is read only after the division of line 280, which raises when there is no member.
\<close>

definition models_bagging :: "member list \<Rightarrow> (error + batch) list \<Rightarrow> error + vote32" where
  "models_bagging model_list_logits loader =
     (case run_models loader (enumerate 0 model_list_logits)
             ([], replicate (length model_list_logits) None) of
        Inl e \<Rightarrow> Inl e
      | Inr (labels_tensor, pd) \<Rightarrow> aggregate32 pd labels_tensor)"

text \<open>The main program: the test loader of line 291, then \<^verbatim>\<open>models_bagging\<close>.\<close>

definition main :: "member list \<Rightarrow> (image_path \<Rightarrow> bool) \<Rightarrow> CovidDataset \<Rightarrow> error + vote32" where
  "main model_list_logits readable testset =
     (case test_loader testset of
        Inl e \<Rightarrow> Inl e
      | Inr L \<Rightarrow> models_bagging model_list_logits (sequential_pass L readable))"

subsection \<open>\<^verbatim>\<open>bagging_loader\<close>\<close>

text \<open>
  \<^verbatim>\<open>random.sample(population, k)\<close> as the set of its possible results: \<^verbatim>\<open>ValueError\<close>
  when \<open>k\<close> is negative or larger than the population, otherwise any selection of \<open>k\<close>
  distinct positions.
\<close>

definition random_sample :: "'a list \<Rightarrow> int \<Rightarrow> (error + 'a list) set" where
  "random_sample population k =
     (if 0 \<le> k \<and> k \<le> int (length population)
      then Inr ` set (samples population (nat k))
      else {Inl ValueError})"

text \<open>
  A Python float: \<^verbatim>\<open>nan\<close>, an infinity (\<open>True\<close> for the negative one), or a finite
  number.
\<close>

datatype py_float = PyNaN | PyInf bool | PyFloat rat

text \<open>
  \<^verbatim>\<open>percent * len(dataset)\<close>: the length, an integer below \<open>2\<^sup>6\<^sup>3\<close>, is converted to
  the nearest float and the product is rounded to float64; a product beyond the largest
  float is an infinity, and an infinity times zero is \<^verbatim>\<open>nan\<close>.
\<close>

definition float_times_len :: "py_float \<Rightarrow> nat \<Rightarrow> py_float" where
  "float_times_len percent n =
     (case percent of
        PyNaN \<Rightarrow> PyNaN
      | PyInf neg \<Rightarrow> if n = 0 then PyNaN else PyInf neg
      | PyFloat p \<Rightarrow>
          (let y = fl64 (p * fl64 (of_nat n))
           in if 2 ^ 1024 \<le> \<bar>y\<bar> then PyInf (y < 0) else PyFloat y))"

text \<open>
  \<^verbatim>\<open>int(round(x))\<close> for a float \<open>x\<close>: \<^verbatim>\<open>round\<close> raises \<^verbatim>\<open>ValueError\<close> on \<^verbatim>\<open>nan\<close> and
  \<^verbatim>\<open>OverflowError\<close> on an infinity.
\<close>

definition round_float :: "py_float \<Rightarrow> error + int" where
  "round_float x =
     (case x of
        PyNaN \<Rightarrow> Inl ValueError
      | PyInf neg \<Rightarrow> Inl OverflowError
      | PyFloat y \<Rightarrow> Inr (python_round y))"

text \<open>Lines 238 to 243, as the set of possible outcomes; \<open>sz\<close> is \<^verbatim>\<open>size\<close>.\<close>

definition bagging_loader :: "CovidDataset \<Rightarrow> py_float \<Rightarrow> bool \<Rightarrow> (error + DataLoader) set" where
  "bagging_loader ds percent shuffle =
     (case round_float (float_times_len percent (dataset_len ds)) of
        Inl e \<Rightarrow> {Inl e}
      | Inr sz \<Rightarrow>
          (\<lambda>r. case r of
                 Inl e \<Rightarrow> Inl e
               | Inr idx \<Rightarrow>
                   DataLoader_init ds (Some (SubsetRandomSampler idx)) BATCH_SIZE True shuffle)
          ` random_sample [0..<dataset_len ds] sz)"

text \<open>
  Line 220 of \<^verbatim>\<open>test_step\<close>: a single member's own prediction from its probabilities,
  \<^verbatim>\<open>pred = torch.round(logits)\<close>.
\<close>

definition test_step_pred :: "tensor \<Rightarrow> tensor" where
  "test_step_pred logits = map torch_round logits"

text \<open>A member that gives the same value for every image, and a file system where every file opens.\<close>

definition constant_member :: "scalar \<Rightarrow> member" where
  "constant_member s img = Abs_probability s"

definition all_readable :: "image_path \<Rightarrow> bool" where
  "all_readable img_path = True"

section \<open>Properties of the vote\<close>

lemma round_half_even_nearest: "\<bar>of_int (round_half_even x) - x\<bar> \<le> 1 / 2"
proof -
  have "of_int \<lfloor>x\<rfloor> \<le> x" "x < of_int \<lfloor>x\<rfloor> + 1" by linarith+
  then show ?thesis
    by (auto simp: round_half_even_def Let_def)
qed

lemma broadcast_same_length:
  "length a = length b \<Longrightarrow> broadcast f a b = Inr (map2 f a b)"
  by (simp add: broadcast_def)

lemma dict_values_Some: "dict_values (map Some vs) = vs"
  by (induction vs) (simp_all add: dict_values_def)

lemma broadcast_ok:
  assumes "length a = length b \<or> length a = 1 \<or> length b = 1"
  shows "\<exists>s. broadcast f a b = Inr s \<and> length s = (if length a = 1 then length b else length a)"
  using assms by (auto simp: broadcast_def)

lemma broadcast_clash:
  "length a \<noteq> length b \<Longrightarrow> length a \<noteq> 1 \<Longrightarrow> length b \<noteq> 1 \<Longrightarrow> broadcast f a b = Inl RuntimeError"
  by (simp add: broadcast_def)

lemma py_sum_no_clash:
  assumes "\<forall>u\<in>set (a # ts). \<forall>v\<in>set (a # ts). length u = length v \<or> length u = 1 \<or> length v = 1"
  shows "\<exists>s. py_sum (Some a) ts = Inr (Some s) \<and>
           (\<forall>v\<in>set (a # ts). length v = length s \<or> length v = 1) \<and>
           length s \<in> length ` set (a # ts)"
  using assms
proof (induction ts arbitrary: a)
  case Nil
  then show ?case by simp
next
  case (Cons t ts)
  have "length a = length t \<or> length a = 1 \<or> length t = 1"
    using Cons.prems by simp
  from broadcast_ok [OF this, of "(+)"] obtain s1 where
    s1: "broadcast (+) a t = Inr s1" "length s1 = (if length a = 1 then length t else length a)"
    by blast
  have "\<forall>u\<in>set (s1 # ts). \<forall>v\<in>set (s1 # ts). length u = length v \<or> length u = 1 \<or> length v = 1"
    using Cons.prems s1(2) by (auto split: if_splits)
  from Cons.IH [OF this] obtain s where
    s: "py_sum (Some s1) ts = Inr (Some s)"
       "\<forall>v\<in>set (s1 # ts). length v = length s \<or> length v = 1"
       "length s \<in> length ` set (s1 # ts)"
    by blast
  have "py_sum (Some a) (t # ts) = Inr (Some s)" using s1(1) s(1) by simp
  moreover have "\<forall>v\<in>set (a # t # ts). length v = length s \<or> length v = 1"
    using s(2) s1(2) Cons.prems by (auto split: if_splits)
  moreover have "length s \<in> length ` set (a # t # ts)"
    using s(3) s1(2) by (auto split: if_splits)
  ultimately show ?case by blast
qed

lemma py_sum_clash:
  assumes "\<exists>u\<in>set (a # ts). \<exists>v\<in>set (a # ts). length u \<noteq> length v \<and> length u \<noteq> 1 \<and> length v \<noteq> 1"
  shows "py_sum (Some a) ts = Inl RuntimeError"
  using assms
proof (induction ts arbitrary: a)
  case Nil
  then show ?case by simp
next
  case (Cons t ts)
  show ?case
  proof (cases "length a = length t \<or> length a = 1 \<or> length t = 1")
    case False
    then show ?thesis by (simp add: broadcast_clash)
  next
    case True
    from broadcast_ok [OF this, of "(+)"] obtain s1 where
      s1: "broadcast (+) a t = Inr s1" "length s1 = (if length a = 1 then length t else length a)"
      by blast
    have "\<exists>u\<in>set (s1 # ts). \<exists>v\<in>set (s1 # ts). length u \<noteq> length v \<and> length u \<noteq> 1 \<and> length v \<noteq> 1"
      using Cons.prems True s1(2) by (auto split: if_splits)
    from Cons.IH [OF this] show ?thesis using s1(1) by simp
  qed
qed

lemma consensus_no_clash:
  assumes "vs \<noteq> []"
    and "\<forall>u\<in>set vs. \<forall>v\<in>set vs. length u = length v \<or> length u = 1 \<or> length v = 1"
  shows "\<exists>mean. consensus (map Some vs) = Inr (mean, map torch_round mean) \<and>
           (\<forall>v\<in>set vs. length v = length mean \<or> length v = 1) \<and>
           length mean \<in> length ` set vs"
proof -
  from assms(1) obtain a ts where vs: "vs = a # ts" by (cases vs) auto
  from py_sum_no_clash [of a ts] assms(2) vs obtain s where
    s: "py_sum (Some a) ts = Inr (Some s)"
       "\<forall>v\<in>set (a # ts). length v = length s \<or> length v = 1"
       "length s \<in> length ` set (a # ts)"
    by blast
  let ?mean = "map (\<lambda>x. x / of_nat (length vs)) s"
  have "py_sum None (dict_values (map Some vs)) = Inr (Some s)"
    unfolding dict_values_Some using s(1) vs by simp
  then have "consensus (map Some vs) = Inr (?mean, map torch_round ?mean)"
    unfolding consensus_def by (simp add: Let_def)
  then show ?thesis using s(2,3) vs by auto
qed

lemma consensus_clash:
  assumes "\<exists>u\<in>set vs. \<exists>v\<in>set vs. length u \<noteq> length v \<and> length u \<noteq> 1 \<and> length v \<noteq> 1"
  shows "consensus (map Some vs) = Inl RuntimeError"
proof -
  from assms obtain a ts where vs: "vs = a # ts" by (cases vs) auto
  have "py_sum (Some a) ts = Inl RuntimeError"
    using py_sum_clash [of a ts] assms vs by blast
  then have "py_sum None (dict_values (map Some vs)) = Inl RuntimeError"
    unfolding dict_values_Some using vs by simp
  then show ?thesis unfolding consensus_def by simp
qed

text \<open>
  Claim C3, as amended. The vote validates no length. Two vectors (member vectors or
  the label vector) clash when their lengths differ and neither has length one. For a
  non-empty ensemble the vote fails exactly when two vectors clash, and then with the
  \<^verbatim>\<open>RuntimeError\<close> of the tensor operation; otherwise it produces a result, vectors
  of length one being broadcast.
\<close>

theorem aggregate_fails_on_clash_only:
  assumes "vs \<noteq> []"
  shows "if \<exists>u\<in>set (labels # vs). \<exists>v\<in>set (labels # vs).
              length u \<noteq> length v \<and> length u \<noteq> 1 \<and> length v \<noteq> 1
         then aggregate (map Some vs) labels = Inl RuntimeError
         else \<exists>r. aggregate (map Some vs) labels = Inr r"
    (is "if ?C then ?A else ?B")
proof (cases "\<exists>u\<in>set vs. \<exists>v\<in>set vs. length u \<noteq> length v \<and> length u \<noteq> 1 \<and> length v \<noteq> 1")
  case True
  then have ?A
    using consensus_clash [OF True] by (simp add: aggregate_def)
  moreover have ?C
    using True by auto
  ultimately show ?thesis by (simp only: if_True)
next
  case False
  then have "\<forall>u\<in>set vs. \<forall>v\<in>set vs. length u = length v \<or> length u = 1 \<or> length v = 1"
    by blast
  from consensus_no_clash [OF assms this] obtain mean where
    m: "consensus (map Some vs) = Inr (mean, map torch_round mean)"
       "\<forall>v\<in>set vs. length v = length mean \<or> length v = 1"
       "length mean \<in> length ` set vs"
    by blast
  let ?preds = "map torch_round mean"
  show ?thesis
  proof (cases "length ?preds = length labels \<or> length ?preds = 1 \<or> length labels = 1")
    case True
    from broadcast_ok [OF True, of eq_float] obtain hits where
      "broadcast eq_float ?preds labels = Inr hits" by blast
    then have ?B
      using m(1) by (simp add: aggregate_def)
    moreover have "\<not> ?C"
      using True False m(2) by (auto; metis)
    ultimately show ?thesis by (simp only: if_False)
  next
    case clash: False
    then have ?A
      using m(1) by (simp add: aggregate_def broadcast_clash)
    moreover from m(3) obtain w where "w \<in> set vs" "length w = length mean" by auto
    then have ?C
      using clash by (intro bexI [of _ labels] bexI [of _ w]) auto
    ultimately show ?thesis by (simp only: if_True)
  qed
qed

theorem aggregate_fails_on_clash_only_witness:
  "aggregate (map Some [replicate 10 0, replicate 10 0, replicate 9 0]) (replicate 10 0)
     = Inl RuntimeError"
  using aggregate_fails_on_clash_only
    [of "[replicate 10 0, replicate 10 0, replicate 9 0]" "replicate 10 0"]
  by simp

text \<open>
  Claim C3 as stated fails: two member vectors of lengths one and two are accepted, and a
  result is produced.
\<close>

theorem misaligned_lengths_counterexample:
  "aggregate [Some [1/5], Some [2/5, 9/10]] [0, 1]
     = Inr \<lparr>mean_prob = [3/10, 11/20], pred_list = [0, 1], test_acc = Num 1\<rparr>"
  by code_simp






text \<open>
  Claim C5. With exactly one member the consensus probability is the member's vector
  and the consensus label is the member's own prediction as \<^verbatim>\<open>test_step\<close> thresholds
  it, for every probability vector; with a label vector of the same length the vote
  returns them.
\<close>

theorem single_member_identity:
  "consensus [Some p] = Inr (p, test_step_pred p) \<and>
   (\<forall>labels. length labels = length p \<longrightarrow>
      (\<exists>r. aggregate [Some p] labels = Inr r \<and> mean_prob r = p \<and> pred_list r = test_step_pred p))"
proof -
  have c: "consensus [Some p] = Inr (p, test_step_pred p)"
    by (simp add: consensus_def dict_values_def test_step_pred_def)
  then show ?thesis
    by (simp add: aggregate_def broadcast_same_length test_step_pred_def)
qed

theorem single_member_identity_witness:
  "consensus [Some [1/5, 1/2, 4/5]] = Inr ([1/5, 1/2, 4/5], [0, 0, 1]) \<and>
   (\<exists>r. aggregate [Some [1/5, 1/2, 4/5]] [0, 1, 1] = Inr r \<and> pred_list r = [0, 0, 1])"
proof -
  have p: "test_step_pred [1/5, 1/2, 4/5] = [0, 0, 1]" by code_simp
  have "length [0, 1, 1 :: rat] = length [1/5, 1/2, 4/5 :: rat]" by simp
  with single_member_identity [of "[1/5, 1/2, 4/5]"] show ?thesis
    unfolding p by blast
qed

section \<open>Properties of the rounding to a float format\<close>

lemma round_half_even_le: "x \<le> of_int n \<Longrightarrow> round_half_even x \<le> n"
proof -
  assume x: "x \<le> of_int n"
  then have f: "\<lfloor>x\<rfloor> \<le> n" by (simp add: floor_le_iff)
  show ?thesis
  proof (cases "\<lfloor>x\<rfloor> = n")
    case True
    then have "x - of_int \<lfloor>x\<rfloor> \<le> 0" using x by simp
    then show ?thesis using True by (simp add: round_half_even_def Let_def)
  next
    case False
    then have "\<lfloor>x\<rfloor> + 1 \<le> n" using f by simp
    then show ?thesis using f by (auto simp: round_half_even_def Let_def)
  qed
qed

lemma round_half_even_ge: "of_int n \<le> x \<Longrightarrow> n \<le> round_half_even x"
proof -
  assume "of_int n \<le> x"
  then have "n \<le> \<lfloor>x\<rfloor>" by (simp add: le_floor_iff)
  then show ?thesis by (auto simp: round_half_even_def Let_def)
qed

lemma round_half_even_zero_iff: "round_half_even x = 0 \<longleftrightarrow> - (1 / 2) \<le> x \<and> x \<le> 1 / 2"
proof
  assume z: "round_half_even x = 0"
  have b: "of_int \<lfloor>x\<rfloor> \<le> x" "x < of_int \<lfloor>x\<rfloor> + 1" by linarith+
  consider "x - of_int \<lfloor>x\<rfloor> < 1 / 2" | "1 / 2 < x - of_int \<lfloor>x\<rfloor>"
    | "x - of_int \<lfloor>x\<rfloor> = 1 / 2" by linarith
  then show "- (1 / 2) \<le> x \<and> x \<le> 1 / 2"
  proof cases
    case 1
    then have "\<lfloor>x\<rfloor> = 0" using z by (simp add: round_half_even_def Let_def)
    then show ?thesis using 1 b by simp
  next
    case 2
    then have "\<lfloor>x\<rfloor> + 1 = 0" using z by (simp add: round_half_even_def Let_def)
    then have "\<lfloor>x\<rfloor> = - 1" by simp
    then show ?thesis using 2 b by simp
  next
    case 3
    then have "\<lfloor>x\<rfloor> = 0 \<or> \<lfloor>x\<rfloor> = - 1"
      using z by (auto simp: round_half_even_def Let_def split: if_splits)
    then show ?thesis using 3 by auto
  qed
next
  assume a: "- (1 / 2) \<le> x \<and> x \<le> 1 / 2"
  have "round_half_even x \<le> 0"
  proof -
    have "\<lfloor>x\<rfloor> \<le> 0" using a by (simp add: floor_le_iff)
    moreover have "\<lfloor>x\<rfloor> = 0 \<Longrightarrow> x - of_int \<lfloor>x\<rfloor> \<le> 1 / 2" using a by simp
    ultimately show ?thesis
      by (cases "\<lfloor>x\<rfloor> = 0") (auto simp: round_half_even_def Let_def)
  qed
  moreover have "0 \<le> round_half_even x"
  proof -
    have f: "- 1 \<le> \<lfloor>x\<rfloor>" using a by (simp add: le_floor_iff)
    show ?thesis
    proof (cases "\<lfloor>x\<rfloor> = - 1")
      case True
      then have "1 / 2 \<le> x - of_int \<lfloor>x\<rfloor>" using a by simp
      then show ?thesis using True by (auto simp: round_half_even_def Let_def)
    next
      case False
      then have "0 \<le> \<lfloor>x\<rfloor>" using f by linarith
      then show ?thesis by (auto simp: round_half_even_def Let_def)
    qed
  qed
  ultimately show "round_half_even x = 0" by simp
qed

lemma float_exponent_bounds:
  assumes "x \<noteq> 0"
  shows "2 powi float_exponent x \<le> \<bar>x\<bar>" and "\<bar>x\<bar> < 2 powi (float_exponent x + 1)"
proof -
  obtain a b where q: "quotient_of \<bar>x\<bar> = (a, b)" by (cases "quotient_of \<bar>x\<bar>")
  have b: "0 < b" using q by (rule quotient_of_denom_pos)
  have x: "\<bar>x\<bar> = of_int a / of_int b" using q by (rule quotient_of_div)
  have "0 < \<bar>x\<bar>" using assms by simp
  then have a: "0 < a" using x b by (simp add: zero_less_divide_iff)
  let ?la = "bitlen a" and ?lb = "bitlen b"
  let ?d = "?la - ?lb"
  have la: "1 \<le> ?la" using a by (simp add: bitlen_alt_def)
  have lb: "1 \<le> ?lb" using b by (simp add: bitlen_alt_def)
  from bitlen_bounds [OF a] have "2 ^ nat (?la - 1) \<le> a" "a < 2 ^ nat ?la" by simp_all
  then have "(of_int (2 ^ nat (?la - 1)) :: rat) \<le> of_int a" "(of_int a :: rat) < of_int (2 ^ nat ?la)"
    by (simp_all only: of_int_le_iff of_int_less_iff)
  then have a1: "(2::rat) powi (?la - 1) \<le> of_int a" and a2: "of_int a < (2::rat) powi ?la"
    using la by (simp_all add: power_int_def)
  from bitlen_bounds [OF b] have "2 ^ nat (?lb - 1) \<le> b" "b < 2 ^ nat ?lb" by simp_all
  then have "(of_int (2 ^ nat (?lb - 1)) :: rat) \<le> of_int b" "(of_int b :: rat) < of_int (2 ^ nat ?lb)"
    by (simp_all only: of_int_le_iff of_int_less_iff)
  then have b1: "(2::rat) powi (?lb - 1) \<le> of_int b" and b2: "of_int b < (2::rat) powi ?lb"
    using lb by (simp_all add: power_int_def)
  have pos: "\<And>k. (0::rat) < 2 powi k" by simp
  have "(of_int a :: rat) / of_int b < 2 powi ?la / 2 powi (?lb - 1)"
    using a a2 b1 pos by (intro frac_less) simp_all
  also have "\<dots> = 2 powi (?d + 1)"
    by (simp add: power_int_diff [symmetric] algebra_simps)
  finally have up: "\<bar>x\<bar> < 2 powi (?d + 1)" using x by simp
  have "2 powi (?la - 1) / 2 powi ?lb < (of_int a :: rat) / of_int b"
    using a1 b2 b pos by (intro frac_less2) simp_all
  moreover have "2 powi (?la - 1) / 2 powi ?lb = (2::rat) powi (?d - 1)"
    by (simp add: power_int_diff [symmetric] algebra_simps)
  ultimately have lo: "2 powi (?d - 1) < \<bar>x\<bar>" using x by simp
  have e: "float_exponent x = (if 2 powi ?d \<le> \<bar>x\<bar> then ?d else ?d - 1)"
    by (simp add: float_exponent_def q Let_def)
  show "2 powi float_exponent x \<le> \<bar>x\<bar>"
    using lo unfolding e by auto
  show "\<bar>x\<bar> < 2 powi (float_exponent x + 1)"
    using up unfolding e by auto
qed

lemma float_exponent_less:
  assumes "x \<noteq> 0" and "\<bar>x\<bar> < 2 powi k"
  shows "float_exponent x < k"
proof (rule ccontr)
  assume "\<not> float_exponent x < k"
  then have "k \<le> float_exponent x" by simp
  then have "(2::rat) powi k \<le> 2 powi float_exponent x"
    by (intro power_int_increasing) simp_all
  with float_exponent_bounds(1) [OF assms(1)] assms(2) show False by simp
qed

lemma quantum_pos: "0 < quantum p emin x"
  by (simp add: quantum_def)

lemma fl_round_nonneg: "0 \<le> x \<Longrightarrow> 0 \<le> fl_round p emin x"
proof -
  assume x: "0 \<le> x"
  have "0 \<le> x / quantum p emin x" using x quantum_pos [of p emin x] by simp
  then have "(of_int 0 :: rat) \<le> x / quantum p emin x" by simp
  then have "0 \<le> round_half_even (x / quantum p emin x)" by (rule round_half_even_ge)
  then show ?thesis using quantum_pos [of p emin x] by (simp add: fl_round_def)
qed

lemma fl_round_le:
  assumes "x \<le> c" and "c / quantum p emin x = of_int k"
  shows "fl_round p emin x \<le> c"
proof (cases "x = 0")
  case True
  then show ?thesis using assms(1) by (simp add: fl_round_def)
next
  case False
  let ?q = "quantum p emin x"
  have q: "0 < ?q" by (rule quantum_pos)
  have "x / ?q \<le> c / ?q" using assms(1) q by (simp add: divide_right_mono)
  then have "round_half_even (x / ?q) \<le> k" unfolding assms(2) by (rule round_half_even_le)
  then have "(of_int (round_half_even (x / ?q)) :: rat) \<le> of_int k" by simp
  then have "of_int (round_half_even (x / ?q)) * ?q \<le> of_int k * ?q"
    using q by (simp add: mult_right_mono)
  moreover have "of_int k * ?q = c" using assms(2) q by (simp add: field_simps)
  ultimately show ?thesis using False by (simp add: fl_round_def)
qed

lemma fl_round_ge:
  assumes "c \<le> x" and "c / quantum p emin x = of_int k"
  shows "c \<le> fl_round p emin x"
proof (cases "x = 0")
  case True
  then show ?thesis using assms(1) by (simp add: fl_round_def)
next
  case False
  let ?q = "quantum p emin x"
  have q: "0 < ?q" by (rule quantum_pos)
  have "c / ?q \<le> x / ?q" using assms(1) q by (simp add: divide_right_mono)
  then have "k \<le> round_half_even (x / ?q)" unfolding assms(2) by (rule round_half_even_ge)
  then have "(of_int k :: rat) \<le> of_int (round_half_even (x / ?q))" by simp
  then have "of_int k * ?q \<le> of_int (round_half_even (x / ?q)) * ?q"
    using q by (simp add: mult_right_mono)
  moreover have "of_int k * ?q = c" using assms(2) q by (simp add: field_simps)
  ultimately show ?thesis using False by (simp add: fl_round_def)
qed

lemma quantum_divides:
  assumes "x \<noteq> 0" and "\<bar>x\<bar> < 2 powi k" and "max (k - 1) emin - int p + 1 \<le> t"
  shows "\<exists>j. (of_int m * 2 powi t) / quantum p emin x = of_int j"
proof -
  let ?s = "max (float_exponent x) emin - int p + 1"
  have "float_exponent x \<le> k - 1" using float_exponent_less [OF assms(1,2)] by simp
  then have "?s \<le> t" using assms(3) by simp
  then have "(2::rat) powi t = 2 powi (t - ?s) * 2 powi ?s"
    by (simp add: power_int_add [symmetric])
  moreover have "(2::rat) powi (t - ?s) = of_int (2 ^ nat (t - ?s))"
    using \<open>?s \<le> t\<close> by (simp add: power_int_def)
  ultimately have "(of_int m * 2 powi t) / quantum p emin x = of_int (m * 2 ^ nat (t - ?s))"
    by (simp add: quantum_def)
  then show ?thesis by blast
qed

lemma fl32_unit:
  assumes "0 \<le> x" and "x \<le> 1"
  shows "0 \<le> fl32 x" and "fl32 x \<le> 1"
proof -
  show "0 \<le> fl32 x" unfolding fl32_def using assms(1) by (rule fl_round_nonneg)
  show "fl32 x \<le> 1"
  proof (cases "x = 0")
    case True
    then show ?thesis by (simp add: fl32_def fl_round_def)
  next
    case False
    have "\<bar>x\<bar> < 2 powi 1" using assms by simp
    from quantum_divides [OF False this, of "- 126" 24 0 1]
    obtain j where "(1::rat) / quantum 24 (- 126) x = of_int j" by auto
    with assms(2) show ?thesis unfolding fl32_def by (rule fl_round_le)
  qed
qed

lemma fl64_half:
  assumes "- (1 / 2) \<le> x" and "x \<le> 1 / 2"
  shows "- (1 / 2) \<le> fl64 x" and "fl64 x \<le> 1 / 2"
proof -
  have both: "- (1 / 2) \<le> fl64 x \<and> fl64 x \<le> 1 / 2"
  proof (cases "x = 0")
    case True
    then show ?thesis by (simp add: fl64_def fl_round_def)
  next
    case False
    have lt: "\<bar>x\<bar> < 2 powi 0" using assms by simp
    from quantum_divides [OF False lt, of "- 1022" 53 "- 1" 1]
    obtain j where j: "(1 / 2 :: rat) / quantum 53 (- 1022) x = of_int j"
      by (auto simp: power_int_minus)
    from quantum_divides [OF False lt, of "- 1022" 53 "- 1" "- 1"]
    obtain i where i: "(- (1 / 2) :: rat) / quantum 53 (- 1022) x = of_int i"
      by (auto simp: power_int_minus)
    have "fl64 x \<le> 1 / 2" unfolding fl64_def using assms(2) j by (rule fl_round_le)
    moreover have "- (1 / 2) \<le> fl64 x" unfolding fl64_def using assms(1) i by (rule fl_round_ge)
    ultimately show ?thesis by simp
  qed
  from both show "- (1 / 2) \<le> fl64 x" and "fl64 x \<le> 1 / 2" by simp_all
qed

lemma fl64_le_nat:
  assumes "0 \<le> x" and "x \<le> of_nat n" and "n < 2 ^ 53"
  shows "fl64 x \<le> of_nat n"
proof (cases "x = 0")
  case True
  then show ?thesis by (simp add: fl64_def fl_round_def)
next
  case False
  have "(of_nat n :: rat) < of_nat (2 ^ 53)" using assms(3) by (simp only: of_nat_less_iff)
  then have "\<bar>x\<bar> < 2 powi 53" using assms(1,2) by simp
  from quantum_divides [OF False this, of "- 1022" 53 0 "int n"]
  obtain j where "(of_nat n :: rat) / quantum 53 (- 1022) x = of_int j" by auto
  with assms(2) show ?thesis unfolding fl64_def by (rule fl_round_le)
qed

lemma fl64_nat:
  assumes "n < 2 ^ 53"
  shows "fl64 (of_nat n) = of_nat n"
proof (cases "n = 0")
  case True
  then show ?thesis by (simp add: fl64_def fl_round_def)
next
  case False
  let ?x = "of_nat n :: rat"
  have x: "?x \<noteq> 0" using False by simp
  have "?x < of_nat (2 ^ 53)" using assms by (simp only: of_nat_less_iff)
  then have "\<bar>?x\<bar> < 2 powi 53" by simp
  from quantum_divides [OF x this, of "- 1022" 53 0 "int n"]
  obtain j where j: "?x / quantum 53 (- 1022) ?x = of_int j" by auto
  have "fl64 ?x \<le> ?x" unfolding fl64_def using order_refl j by (rule fl_round_le)
  moreover have "?x \<le> fl64 ?x" unfolding fl64_def using order_refl j by (rule fl_round_ge)
  ultimately show ?thesis by simp
qed

lemma float_exponent_ge:
  assumes "x \<noteq> 0" and "2 powi k \<le> \<bar>x\<bar>"
  shows "k \<le> float_exponent x"
proof (rule ccontr)
  assume "\<not> k \<le> float_exponent x"
  then have "float_exponent x + 1 \<le> k" by simp
  then have "(2::rat) powi (float_exponent x + 1) \<le> 2 powi k"
    by (intro power_int_increasing) simp_all
  with float_exponent_bounds(2) [OF assms(1)] assms(2) show False by simp
qed

lemma fl64_overflow:
  assumes "2 ^ 1024 \<le> x"
  shows "2 ^ 1024 \<le> fl64 x"
proof -
  have x: "x \<noteq> 0" "0 < x" using assms by auto
  let ?e = "float_exponent x"
  have "(2::rat) powi 1024 \<le> \<bar>x\<bar>" using assms by simp
  from float_exponent_ge [OF x(1) this] have e: "1024 \<le> ?e" .
  have c: "2 powi ?e \<le> x" using float_exponent_bounds(1) [OF x(1)] x(2) by simp
  have "max ?e (- 1022) = ?e" using e by simp
  then have "(2::rat) powi ?e / quantum 53 (- 1022) x = 2 powi 52"
    by (simp add: quantum_def power_int_diff [symmetric])
  then have "(2::rat) powi ?e / quantum 53 (- 1022) x = of_int (2 ^ 52)" by simp
  with c have "2 powi ?e \<le> fl64 x" unfolding fl64_def by (rule fl_round_ge)
  moreover have "(2::rat) powi 1024 \<le> 2 powi ?e"
    using e by (intro power_int_increasing) simp_all
  ultimately show ?thesis by simp
qed

section \<open>Properties of the vote in float32 arithmetic\<close>

lemma tensor_op_same_length:
  "length a = length b \<Longrightarrow> tensor_op f a b = Inr (map2 f a b)"
  by (simp add: tensor_op_def)

lemma dict_values32_Some: "List.map_filter id (map Some vs) = vs"
  by (induction vs) (simp_all add: map_filter_simps)

lemma py_sum32_same_length:
  "\<forall>t\<in>set ts. length t = length a \<Longrightarrow>
   \<exists>s. py_sum32 (Some a) ts = Inr (Some s) \<and> length s = length a \<and>
       (\<forall>i<length a. s ! i = foldl fadd32 (a ! i) (map (\<lambda>t. t ! i) ts))"
proof (induction ts arbitrary: a)
  case Nil
  then show ?case by simp
next
  case (Cons t ts)
  let ?a = "map2 fadd32 a t"
  have len: "length ?a = length a" using Cons.prems by simp
  have "\<forall>u\<in>set ts. length u = length ?a" using Cons.prems by simp
  from Cons.IH [OF this] obtain s where
    s: "py_sum32 (Some ?a) ts = Inr (Some s)" "length s = length ?a"
       "\<forall>i<length ?a. s ! i = foldl fadd32 (?a ! i) (map (\<lambda>t. t ! i) ts)"
    by blast
  have "py_sum32 (Some a) (t # ts) = Inr (Some s)"
    using s(1) Cons.prems by (simp add: tensor_op_same_length)
  moreover have "\<forall>i<length a. s ! i = foldl fadd32 (a ! i) (map (\<lambda>t. t ! i) (t # ts))"
    using s(3) Cons.prems by simp
  ultimately show ?case using s(2) len by simp
qed

lemma consensus32_same_length:
  assumes "vs \<noteq> []" and "\<forall>v\<in>set vs. length v = M"
  shows "\<exists>mean. consensus32 (map Some vs) = Inr (mean, map round32 mean) \<and> length mean = M \<and>
           (\<forall>i<M. mean ! i = float32_mean (map (\<lambda>v. v ! i) vs))"
proof -
  from assms(1) obtain a ts where vs: "vs = a # ts" by (cases vs) auto
  have "\<forall>t\<in>set ts. length t = length a" and la: "length a = M"
    using assms(2) vs by simp_all
  from py_sum32_same_length [OF this(1)] obtain s where
    s: "py_sum32 (Some a) ts = Inr (Some s)" "length s = length a"
       "\<forall>i<length a. s ! i = foldl fadd32 (a ! i) (map (\<lambda>t. t ! i) ts)"
    by blast
  let ?mean = "map (\<lambda>x. fdiv32 x (length vs)) s"
  have "py_sum32 None (List.map_filter id (map Some vs)) = Inr (Some s)"
    unfolding dict_values32_Some using s(1) vs by simp
  then have "consensus32 (map Some vs) = Inr (?mean, map round32 ?mean)"
    unfolding consensus32_def by (simp add: Let_def)
  moreover have "length ?mean = M" using s(2) la by simp
  moreover have "\<forall>i<M. ?mean ! i = float32_mean (map (\<lambda>v. v ! i) vs)"
    using s(2,3) la vs by (simp add: float32_mean_def)
  ultimately show ?thesis by blast
qed

lemma sum_list_eq32:
  "length ps = length ls \<Longrightarrow>
   sum_list (map2 eq32 ps ls) = of_nat (card {i. i < length ps \<and> eq32 (ps ! i) (ls ! i) = 1})"
proof -
  assume len: "length ps = length ls"
  have v: "\<And>a b. eq32 a b = 0 \<or> eq32 a b = 1"
    by (simp add: eq32_def split: scalar.splits)
  have "sum_list (map2 eq32 ps ls)
        = of_nat (length (filter (\<lambda>(a, b). eq32 a b = 1) (zip ps ls)))"
  proof (induction ps ls rule: list_induct2')
    case (4 x xs y ys)
    then show ?case using v [of x y] by auto
  qed simp_all
  also have "length (filter (\<lambda>(a, b). eq32 a b = 1) (zip ps ls))
             = card {i. i < length ps \<and> eq32 (ps ! i) (ls ! i) = 1}"
    unfolding length_filter_conv_card using len
    by (intro arg_cong [where f = card]) auto
  finally show ?thesis .
qed

lemma aggregate32_same_length:
  assumes "vs \<noteq> []" and "\<forall>v\<in>set vs. length v = M" and "length labels = M"
  shows "\<exists>r. aggregate32 (map Some vs) labels = Inr r \<and>
           length (consensus_prob r) = M \<and> length (consensus_label r) = M \<and>
           (\<forall>i<M. consensus_prob r ! i = float32_mean (map (\<lambda>v. v ! i) vs) \<and>
                  consensus_label r ! i = round32 (consensus_prob r ! i)) \<and>
           accuracy r =
             (if M = 0 then NaN
              else Num (fl32 (of_nat (card {i. i < M \<and>
                      eq32 (consensus_label r ! i) (labels ! i) = 1}) / of_nat M)))"
proof -
  from consensus32_same_length [OF assms(1,2)] obtain mean where
    m: "consensus32 (map Some vs) = Inr (mean, map round32 mean)" "length mean = M"
       "\<forall>i<M. mean ! i = float32_mean (map (\<lambda>v. v ! i) vs)"
    by blast
  let ?preds = "map round32 mean"
  let ?hits = "map2 eq32 ?preds labels"
  let ?r = "\<lparr>consensus_prob = mean, consensus_label = ?preds, accuracy = torch_mean32 ?hits\<rparr>"
  have lp: "length ?preds = length labels" using m(2) assms(3) by simp
  have agg: "aggregate32 (map Some vs) labels = Inr ?r"
    using m(1) lp by (simp add: aggregate32_def tensor_op_same_length)
  have hits: "sum_list ?hits = of_nat (card {i. i < M \<and> eq32 (?preds ! i) (labels ! i) = 1})"
    using sum_list_eq32 [OF lp] m(2) by simp
  have lh: "length ?hits = M" using m(2) assms(3) by simp
  have acc: "torch_mean32 ?hits =
      (if M = 0 then NaN
       else Num (fl32 (of_nat (card {i. i < M \<and> eq32 (?preds ! i) (labels ! i) = 1}) / of_nat M)))"
  proof (cases "M = 0")
    case True
    with lh have "length ?hits = 0" by (simp only:)
    then have "?hits = []" by (simp only: length_0_conv)
    then show ?thesis using True by (simp add: torch_mean32_def)
  next
    case False
    then have "?hits \<noteq> []" using lh by auto
    then show ?thesis using False hits lh by (simp add: torch_mean32_def)
  qed
  have pr: "\<forall>i<M. mean ! i = float32_mean (map (\<lambda>v. v ! i) vs) \<and> ?preds ! i = round32 (mean ! i)"
    using m(2,3) by simp
  show ?thesis
    by (rule exI [of _ ?r]) (simp add: agg m(2) pr acc)
qed

lemma foldl_fadd32_Num:
  "foldl fadd32 (Num x) (map Num xs) = Num (foldl (\<lambda>a b. fl32 (a + b)) x xs)"
  by (induction xs arbitrary: x) (simp_all add: fadd32_def)

lemma float32_mean_Num:
  "xs \<noteq> [] \<Longrightarrow>
   float32_mean (map Num xs) = Num (fl32 (float32_sum xs / fl32 (of_nat (length xs))))"
  by (cases xs) (simp_all add: float32_mean_def foldl_fadd32_Num fdiv32_def)

lemma eq32_Num: "eq32 (Num a) (Num b) = 1 \<longleftrightarrow> a = b"
  by (simp add: eq32_def)

text \<open>
  Claim C1, as amended. For a non-empty ensemble whose probability vectors all have
  length \<open>M\<close> and a label vector of length \<open>M\<close>, the vote succeeds. At every sample the
  consensus probability is the mean as float32 arithmetic computes it: the members'
  probabilities added from left to right, each sum rounded to float32, and the total
  divided by the number of members and rounded again. The consensus label is the
  integer that \<^verbatim>\<open>torch.round\<close> gives for that consensus probability, at distance at
  most one half from it. For fewer than \<open>2\<^sup>2\<^sup>4\<close> samples the accuracy is the float32
  nearest to the number of samples whose consensus label equals the label, divided by
  \<open>M\<close> (for \<open>M = 0\<close> the mean of an empty tensor, \<^verbatim>\<open>nan\<close>).
\<close>

theorem aggregate32_float_mean_round_accuracy:
  assumes "vs \<noteq> []" and "\<forall>v\<in>set vs. length v = M" and "length labels = M"
  shows "\<exists>r. aggregate32 (map (\<lambda>v. Some (map Num v)) vs) (map Num labels) = Inr r \<and>
           length (consensus_prob r) = M \<and> length (consensus_label r) = M \<and>
           (\<forall>i<M. \<exists>p k.
              p = fl32 (float32_sum (map (\<lambda>v. v ! i) vs) / fl32 (of_nat (length vs))) \<and>
              k = round_half_even p \<and> \<bar>of_int k - p\<bar> \<le> 1 / 2 \<and>
              consensus_prob r ! i = Num p \<and> consensus_label r ! i = Num (of_int k)) \<and>
           (0 < M \<and> M < 2 ^ 24 \<longrightarrow> accuracy r =
              Num (fl32 (of_nat (card {i. i < M \<and> consensus_label r ! i = Num (labels ! i)})
                         / of_nat M))) \<and>
           (M = 0 \<longrightarrow> accuracy r = NaN)"
proof -
  let ?vs = "map (map Num) vs"
  let ?ls = "map Num labels"
  have v1: "?vs \<noteq> []" using assms(1) by simp
  have v2: "\<forall>v\<in>set ?vs. length v = M" using assms(2) by simp
  have v3: "length ?ls = M" using assms(3) by simp
  from aggregate32_same_length [OF v1 v2 v3] obtain r where
    rr: "aggregate32 (map Some ?vs) ?ls = Inr r \<and>
           length (consensus_prob r) = M \<and> length (consensus_label r) = M \<and>
           (\<forall>i<M. consensus_prob r ! i = float32_mean (map (\<lambda>v. v ! i) ?vs) \<and>
                  consensus_label r ! i = round32 (consensus_prob r ! i)) \<and>
           accuracy r =
             (if M = 0 then NaN
              else Num (fl32 (of_nat (card {i. i < M \<and>
                      eq32 (consensus_label r ! i) (?ls ! i) = 1}) / of_nat M)))" ..
  note r1 = rr [THEN conjunct1]
    and r2 = rr [THEN conjunct2, THEN conjunct1]
    and r3 = rr [THEN conjunct2, THEN conjunct2, THEN conjunct1]
    and r4 = rr [THEN conjunct2, THEN conjunct2, THEN conjunct2, THEN conjunct1]
    and r5 = rr [THEN conjunct2, THEN conjunct2, THEN conjunct2, THEN conjunct2]
  have agg: "aggregate32 (map (\<lambda>v. Some (map Num v)) vs) ?ls = Inr r"
    using r1 by (simp add: comp_def)
  have cols: "map (\<lambda>v. v ! i) ?vs = map Num (map (\<lambda>v. v ! i) vs)" if "i < M" for i
    unfolding map_map by (rule map_cong [OF refl]) (use assms(2) that in simp)
  have each: "\<forall>i<M. consensus_prob r ! i
                = Num (fl32 (float32_sum (map (\<lambda>v. v ! i) vs) / fl32 (of_nat (length vs)))) \<and>
              consensus_label r ! i
                = Num (of_int (round_half_even
                    (fl32 (float32_sum (map (\<lambda>v. v ! i) vs) / fl32 (of_nat (length vs))))))"
  proof (intro allI impI)
    fix i assume i: "i < M"
    have "consensus_prob r ! i = float32_mean (map (\<lambda>v. v ! i) ?vs)"
      using r4 i by blast
    then have "consensus_prob r ! i = float32_mean (map Num (map (\<lambda>v. v ! i) vs))"
      unfolding cols [OF i] .
    also have "\<dots> = Num (fl32 (float32_sum (map (\<lambda>v. v ! i) vs)
                          / fl32 (of_nat (length (map (\<lambda>v. v ! i) vs)))))"
      using assms(1) by (intro float32_mean_Num) simp
    finally have p: "consensus_prob r ! i
        = Num (fl32 (float32_sum (map (\<lambda>v. v ! i) vs) / fl32 (of_nat (length vs))))"
      by simp
    moreover have "consensus_label r ! i = round32 (consensus_prob r ! i)" using r4 i by simp
    ultimately show "consensus_prob r ! i
                = Num (fl32 (float32_sum (map (\<lambda>v. v ! i) vs) / fl32 (of_nat (length vs)))) \<and>
              consensus_label r ! i
                = Num (of_int (round_half_even
                    (fl32 (float32_sum (map (\<lambda>v. v ! i) vs) / fl32 (of_nat (length vs))))))"
      by (simp add: round32_def)
  qed
  have each': "\<forall>i<M. \<exists>p k.
              p = fl32 (float32_sum (map (\<lambda>v. v ! i) vs) / fl32 (of_nat (length vs))) \<and>
              k = round_half_even p \<and> \<bar>of_int k - p\<bar> \<le> 1 / 2 \<and>
              consensus_prob r ! i = Num p \<and> consensus_label r ! i = Num (of_int k)"
    using each round_half_even_nearest by simp
  have set_eq: "{i. i < M \<and> eq32 (consensus_label r ! i) (?ls ! i) = 1}
              = {i. i < M \<and> consensus_label r ! i = Num (labels ! i)}"
  proof (intro Collect_cong conj_cong refl)
    fix i assume i: "i < M"
    from each i obtain k where k: "consensus_label r ! i = Num k" by blast
    have "?ls ! i = Num (labels ! i)" using i assms(3) by simp
    then show "eq32 (consensus_label r ! i) (?ls ! i) = 1
               \<longleftrightarrow> consensus_label r ! i = Num (labels ! i)"
      unfolding k by (simp add: eq32_Num)
  qed
  have acc: "0 < M \<and> M < 2 ^ 24 \<longrightarrow> accuracy r =
              Num (fl32 (of_nat (card {i. i < M \<and> consensus_label r ! i = Num (labels ! i)})
                         / of_nat M))"
    using r5 unfolding set_eq by simp
  have nan: "M = 0 \<longrightarrow> accuracy r = NaN" using r5 by simp
  show ?thesis
    by (rule exI [of _ r]) (intro conjI agg r2 r3 each' acc nan)
qed

theorem aggregate32_float_mean_round_accuracy_witness:
  "\<exists>r. aggregate32 (map (\<lambda>v. Some (map Num v))
            [[1 / 2, 1 / 4], [8388609 / 16777216, 3 / 4], [1 / 2, 1]]) (map Num [1, 1]) = Inr r \<and>
       length (consensus_prob r) = 2 \<and> length (consensus_label r) = 2 \<and>
       accuracy r =
         Num (fl32 (of_nat (card {i. i < 2 \<and> consensus_label r ! i = Num ([1, 1] ! i)})
                    / of_nat 2))"
proof -
  let ?vs = "[[1 / 2, 1 / 4], [8388609 / 16777216, 3 / 4], [1 / 2, 1 :: rat]]"
  have h: "?vs \<noteq> []" "\<forall>v\<in>set ?vs. length v = 2" "length [1, 1 :: rat] = 2"
    by simp_all
  from aggregate32_float_mean_round_accuracy [OF h] obtain r where
    "aggregate32 (map (\<lambda>v. Some (map Num v)) ?vs) (map Num [1, 1]) = Inr r"
    "length (consensus_prob r) = 2" "length (consensus_label r) = 2"
    "0 < (2::nat) \<and> (2::nat) < 2 ^ 24 \<longrightarrow> accuracy r =
       Num (fl32 (of_nat (card {i. i < 2 \<and> consensus_label r ! i = Num ([1, 1] ! i)})
                  / of_nat 2))"
    by (elim exE conjE)
  then show ?thesis by (intro exI [of _ r]) simp
qed

text \<open>
  Claim C1 as stated fails: for two members with probabilities \<open>0.5\<close> and
  \<open>0.5 + 2\<^sup>-\<^sup>2\<^sup>4\<close> the float32 sum is 1, the consensus probability is \<open>0.5\<close>, the
  label 0 and the accuracy against the label 1 is 0, whereas the arithmetic mean is
  \<open>0.5 + 2\<^sup>-\<^sup>2\<^sup>5\<close> and rounds to 1.
\<close>

theorem float32_mean_counterexample:
  "aggregate32 [Some [Num (1 / 2)], Some [Num (8388609 / 16777216)]] [Num 1]
     = Inr \<lparr>consensus_prob = [Num (1 / 2)], consensus_label = [Num 0], accuracy = Num 0\<rparr> \<and>
   ((1 / 2 + 8388609 / 16777216) / 2 :: rat) = 16777217 / 33554432 \<and>
   torch_round (16777217 / 33554432) = 1"
  by (intro conjI; code_simp)

section \<open>Properties of the bootstrap sampler\<close>

lemma round_half_even_nonneg: "0 \<le> x \<Longrightarrow> 0 \<le> round_half_even x"
proof -
  assume "0 \<le> x"
  then have "0 \<le> \<lfloor>x\<rfloor>" by simp
  then show ?thesis by (auto simp: round_half_even_def Let_def)
qed




lemma samples_nonempty: "k \<le> length pool \<Longrightarrow> samples pool k \<noteq> []"
proof (induction k arbitrary: pool)
  case 0
  then show ?case by simp
next
  case (Suc k)
  then have j: "0 < length pool" by auto
  have "k \<le> length (take 0 pool @ drop (Suc 0) pool)" using Suc.prems by simp
  from Suc.IH [OF this]
  have "\<exists>j\<in>{0..<length pool}. samples (take j pool @ drop (Suc j) pool) k \<noteq> []"
    using j by (intro bexI [of _ 0]) simp_all
  then show ?case by simp
qed

lemma round_float_times_len:
  "round_float (float_times_len (PyFloat p) n) =
     (if 2 ^ 1024 \<le> \<bar>fl64 (p * fl64 (of_nat n))\<bar> then Inl OverflowError
      else Inr (python_round (fl64 (p * fl64 (of_nat n)))))"
  by (simp add: round_float_def float_times_len_def Let_def)

lemma bagging_loader_in_range:
  assumes "round_float (float_times_len percent (dataset_len ds)) = Inr sz"
    and "0 \<le> sz" and "sz \<le> int (dataset_len ds)"
  shows "bagging_loader ds percent False =
     (\<lambda>idx. Inr \<lparr>dataset = ds, sampler = SubsetRandomSampler idx,
                 batch_size = BATCH_SIZE, drop_last = True\<rparr>)
       ` set (samples [0..<dataset_len ds] (nat sz))"
  using assms
  by (simp add: bagging_loader_def random_sample_def DataLoader_init_def image_image)

lemma bagging_loader_out_of_range:
  assumes "round_float (float_times_len percent (dataset_len ds)) = Inr sz"
    and "sz < 0 \<or> int (dataset_len ds) < sz"
  shows "bagging_loader ds percent shuffle = {Inl ValueError}"
  using assms
  by (auto simp: bagging_loader_def random_sample_def)

lemma bagging_loader_round_fails:
  assumes "round_float (float_times_len percent (dataset_len ds)) = Inl e"
  shows "bagging_loader ds percent shuffle = {Inl e}"
  using assms by (simp add: bagging_loader_def)

lemma bag_size_bounds:
  assumes "0 \<le> p" and "p \<le> 1" and "n < 2 ^ 53"
  shows "round_float (float_times_len (PyFloat p) n) = Inr (python_round (fl64 (p * of_nat n)))"
    and "0 \<le> python_round (fl64 (p * of_nat n))"
    and "python_round (fl64 (p * of_nat n)) \<le> int n"
proof -
  let ?y = "fl64 (p * of_nat n)"
  have x0: "0 \<le> p * of_nat n" using assms(1) by simp
  have "p * of_nat n \<le> 1 * of_nat n"
    using assms(2) by (intro mult_right_mono) simp_all
  then have x1: "p * of_nat n \<le> of_nat n" by simp
  have y0: "0 \<le> ?y" unfolding fl64_def using x0 by (rule fl_round_nonneg)
  have y1: "?y \<le> of_nat n" using x0 x1 assms(3) by (rule fl64_le_nat)
  have "(of_nat n :: rat) < of_nat (2 ^ 53)" using assms(3) by (simp only: of_nat_less_iff)
  also have "\<dots> < 2 ^ 1024" by simp
  finally have "\<bar>?y\<bar> < 2 ^ 1024" using y0 y1 by simp
  then show "round_float (float_times_len (PyFloat p) n) = Inr (python_round ?y)"
    by (simp add: round_float_times_len fl64_nat [OF assms(3)])
  show "0 \<le> python_round ?y"
    unfolding python_round_def using y0 by (rule round_half_even_nonneg)
  have "?y \<le> of_int (int n)" using y1 by simp
  then show "python_round ?y \<le> int n"
    unfolding python_round_def by (rule round_half_even_le)
qed



lemma exact_product_rounds_to_zero:
  assumes "python_round (percent * of_nat n) = 0" and "n < 2 ^ 53"
  shows "round_float (float_times_len (PyFloat percent) n) = Inr 0"
proof -
  let ?x = "percent * of_nat n"
  have x: "- (1 / 2) \<le> ?x" "?x \<le> 1 / 2"
    using assms(1) by (simp_all add: python_round_def round_half_even_zero_iff)
  note y = fl64_half [OF x]
  then have "\<bar>fl64 ?x\<bar> \<le> 1 / 2" by simp
  also have "(1 / 2 :: rat) < 2 ^ 1024" by simp
  finally have fin: "\<not> 2 ^ 1024 \<le> \<bar>fl64 ?x\<bar>" by simp
  have "python_round (fl64 ?x) = 0"
    using y by (simp add: python_round_def round_half_even_zero_iff)
  then show ?thesis
    using fin by (simp add: round_float_times_len fl64_nat [OF assms(2)])
qed

text \<open>
  Claim C10. When \<^verbatim>\<open>round(percent * len(dataset))\<close>, as line 240 computes it, is 0,
  \<^verbatim>\<open>bagging_loader\<close> (with \<^verbatim>\<open>shuffle\<close> at its default) has exactly one outcome, which is
  not an error: the loader over the empty list of indices, whose every pass yields no
  batch.
\<close>

theorem bagging_loader_empty_bag:
  assumes "round_float (float_times_len (PyFloat percent) (dataset_len ds)) = Inr 0"
  shows "bagging_loader ds (PyFloat percent) False =
           {Inr \<lparr>dataset = ds, sampler = SubsetRandomSampler [],
                 batch_size = BATCH_SIZE, drop_last = True\<rparr>} \<and>
         sampler_orders \<lparr>dataset = ds, sampler = SubsetRandomSampler [],
                 batch_size = BATCH_SIZE, drop_last = True\<rparr> = {[]} \<and>
         loader_batches \<lparr>dataset = ds, sampler = SubsetRandomSampler [],
                 batch_size = BATCH_SIZE, drop_last = True\<rparr> = {[]}"
proof -
  have "bagging_loader ds (PyFloat percent) False =
           {Inr \<lparr>dataset = ds, sampler = SubsetRandomSampler [],
                 batch_size = BATCH_SIZE, drop_last = True\<rparr>}"
    using assms by (simp add: bagging_loader_def random_sample_def DataLoader_init_def)
  then show ?thesis
    by (simp add: loader_batches_def sampler_orders_def)
qed

theorem bagging_loader_empty_bag_witness:
  "bagging_loader \<lparr>images = replicate 100 \<lparr>parent_name = ''CT_COVID'', file_name = ''a.png''\<rparr>\<rparr>
     (PyFloat (1152921504606847 / 288230376151711744)) False =
     {Inr \<lparr>dataset = \<lparr>images = replicate 100 \<lparr>parent_name = ''CT_COVID'', file_name = ''a.png''\<rparr>\<rparr>,
           sampler = SubsetRandomSampler [], batch_size = BATCH_SIZE, drop_last = True\<rparr>}"
proof -
  let ?ds = "\<lparr>images = replicate 100 \<lparr>parent_name = ''CT_COVID'', file_name = ''a.png''\<rparr>\<rparr>"
  have n: "dataset_len ?ds = 100"
    by (simp add: dataset_len_def)
  have r: "round_float (float_times_len (PyFloat (1152921504606847 / 288230376151711744))
             (dataset_len ?ds)) = Inr 0"
    unfolding n by code_simp
  from bagging_loader_empty_bag [OF r] show ?thesis by (rule conjunct1)
qed


lemma float_times_len_overflow:
  assumes "2 ^ 1024 \<le> p * of_nat n" and "n < 2 ^ 53"
  shows "float_times_len (PyFloat p) n = PyInf False"
proof -
  from fl64_overflow [OF assms(1)] have y: "2 ^ 1024 \<le> fl64 (p * of_nat n)" .
  then have "2 ^ 1024 \<le> \<bar>fl64 (p * of_nat n)\<bar>" "\<not> fl64 (p * of_nat n) < 0" by simp_all
  then show ?thesis by (simp add: float_times_len_def Let_def fl64_nat [OF assms(2)])
qed

text \<open>
  Claim C7, as amended. \<^verbatim>\<open>bagging_loader\<close> validates no argument. With \<^verbatim>\<open>shuffle\<close> at
  its default it fails in exactly three cases: the float product of the fraction and the
  dataset size is \<^verbatim>\<open>nan\<close> (\<^verbatim>\<open>ValueError\<close> from \<^verbatim>\<open>round\<close>); the product is infinite
  (\<^verbatim>\<open>OverflowError\<close> from \<^verbatim>\<open>round\<close>); the rounded bag size is negative or exceeds the
  size of the dataset (\<^verbatim>\<open>ValueError\<close> from \<^verbatim>\<open>random.sample\<close>). For every fraction in
  \<open>[0, 1]\<close> and every dataset size below \<open>2\<^sup>5\<^sup>3\<close>, zero included, it succeeds.
\<close>

theorem bagging_loader_failures:
  "(case float_times_len percent (dataset_len ds) of
      PyNaN \<Rightarrow> bagging_loader ds percent False = {Inl ValueError}
    | PyInf neg \<Rightarrow> bagging_loader ds percent False = {Inl OverflowError}
    | PyFloat y \<Rightarrow>
        if python_round y < 0 \<or> int (dataset_len ds) < python_round y
        then bagging_loader ds percent False = {Inl ValueError}
        else bagging_loader ds percent False \<noteq> {} \<and>
             (\<forall>r\<in>bagging_loader ds percent False. \<exists>L. r = Inr L)) \<and>
   (\<forall>p. percent = PyFloat p \<and> 0 \<le> p \<and> p \<le> 1 \<and> dataset_len ds < 2 ^ 53 \<longrightarrow>
      bagging_loader ds percent False \<noteq> {} \<and>
      (\<forall>r\<in>bagging_loader ds percent False. \<exists>L. r = Inr L))"
proof -
  let ?n = "dataset_len ds"
  have ok: "bagging_loader ds percent False \<noteq> {} \<and>
         (\<forall>r\<in>bagging_loader ds percent False. \<exists>L. r = Inr L)"
    if r: "round_float (float_times_len percent ?n) = Inr sz" and b: "0 \<le> sz" "sz \<le> int ?n"
    for sz
  proof -
    have "samples [0..<?n] (nat sz) \<noteq> []"
      using b by (intro samples_nonempty) simp
    then show ?thesis
      unfolding bagging_loader_in_range [OF r b] by auto
  qed
  have first: "case float_times_len percent ?n of
      PyNaN \<Rightarrow> bagging_loader ds percent False = {Inl ValueError}
    | PyInf neg \<Rightarrow> bagging_loader ds percent False = {Inl OverflowError}
    | PyFloat y \<Rightarrow>
        if python_round y < 0 \<or> int ?n < python_round y
        then bagging_loader ds percent False = {Inl ValueError}
        else bagging_loader ds percent False \<noteq> {} \<and>
             (\<forall>r\<in>bagging_loader ds percent False. \<exists>L. r = Inr L)"
  proof (cases "float_times_len percent ?n")
    case PyNaN
    then show ?thesis
      using bagging_loader_round_fails [of percent ds ValueError False]
      by (simp add: round_float_def)
  next
    case (PyInf neg)
    then show ?thesis
      using bagging_loader_round_fails [of percent ds OverflowError False]
      by (simp add: round_float_def)
  next
    case (PyFloat y)
    then have r: "round_float (float_times_len percent ?n) = Inr (python_round y)"
      by (simp add: round_float_def)
    show ?thesis
    proof (cases "python_round y < 0 \<or> int ?n < python_round y")
      case True
      then show ?thesis
        using PyFloat bagging_loader_out_of_range [OF r, of False] by simp
    next
      case False
      then have "0 \<le> python_round y" "python_round y \<le> int ?n" by simp_all
      from ok [OF r this] show ?thesis using PyFloat False by simp
    qed
  qed
  have second: "\<forall>p. percent = PyFloat p \<and> 0 \<le> p \<and> p \<le> 1 \<and> ?n < 2 ^ 53 \<longrightarrow>
      bagging_loader ds percent False \<noteq> {} \<and>
      (\<forall>r\<in>bagging_loader ds percent False. \<exists>L. r = Inr L)"
  proof (intro allI impI)
    fix p assume a: "percent = PyFloat p \<and> 0 \<le> p \<and> p \<le> 1 \<and> ?n < 2 ^ 53"
    then have p: "percent = PyFloat p" "0 \<le> p" "p \<le> 1" "?n < 2 ^ 53" by simp_all
    note b = bag_size_bounds [OF p(2,3,4)]
    show "bagging_loader ds percent False \<noteq> {} \<and>
      (\<forall>r\<in>bagging_loader ds percent False. \<exists>L. r = Inr L)"
      unfolding p(1) by (rule ok [unfolded p(1), OF b])
  qed
  from first second show ?thesis by (rule conjI)
qed

theorem bagging_loader_failures_witness:
  "bagging_loader \<lparr>images = replicate 10 \<lparr>parent_name = ''CT_COVID'', file_name = ''a.png''\<rparr>\<rparr>
     (PyFloat (3 / 2)) False = {Inl ValueError} \<and>
   bagging_loader \<lparr>images = replicate 10 \<lparr>parent_name = ''CT_COVID'', file_name = ''a.png''\<rparr>\<rparr>
     (PyFloat 100000000000000001097906362944045541740492309677311846336810682903157585404911491537163328978494688899061249669721172515611590283743140088328307009198146046031271664502933027185697489699588559043338384466165001178426897626212945177628091195786707458122783970171784415105291802893207873272974885715430223118336)
     False = {Inl OverflowError}"
proof -
  let ?ds = "\<lparr>images = replicate 10 \<lparr>parent_name = ''CT_COVID'', file_name = ''a.png''\<rparr>\<rparr>"
  let ?big = "100000000000000001097906362944045541740492309677311846336810682903157585404911491537163328978494688899061249669721172515611590283743140088328307009198146046031271664502933027185697489699588559043338384466165001178426897626212945177628091195786707458122783970171784415105291802893207873272974885715430223118336 :: rat"
  have n: "dataset_len ?ds = 10"
    by (simp add: dataset_len_def)
  have f1: "float_times_len (PyFloat (3 / 2)) (dataset_len ?ds) = PyFloat 15"
    unfolding n by code_simp
  have r1: "python_round 15 = 15" by code_simp
  have f2: "float_times_len (PyFloat ?big) (dataset_len ?ds) = PyInf False"
    unfolding n by (rule float_times_len_overflow) simp_all
  have a: "bagging_loader ?ds (PyFloat (3 / 2)) False = {Inl ValueError}"
    using bagging_loader_failures [where percent = "PyFloat (3 / 2)" and ds = ?ds, THEN conjunct1]
    unfolding f1 by (simp add: r1 n)
  have b: "bagging_loader ?ds (PyFloat ?big) False = {Inl OverflowError}"
    using bagging_loader_failures [where percent = "PyFloat ?big" and ds = ?ds, THEN conjunct1]
    unfolding f2 by simp
  from a b show ?thesis by (rule conjI)
qed

text \<open>
  Claim C7 as stated fails: an empty dataset (with the fraction 0.6), a fraction of 0 and
  a fraction of 1.25 (on two samples) are all accepted.
\<close>

theorem no_invalid_argument_counterexample:
  "bagging_loader \<lparr>images = []\<rparr> (PyFloat (5404319552844595 / 9007199254740992)) False =
     {Inr \<lparr>dataset = \<lparr>images = []\<rparr>, sampler = SubsetRandomSampler [],
           batch_size = 8, drop_last = True\<rparr>} \<and>
   bagging_loader \<lparr>images = [\<lparr>parent_name = ''CT_COVID'', file_name = ''a.png''\<rparr>,
                             \<lparr>parent_name = ''CT_NonCOVID'', file_name = ''b.png''\<rparr>]\<rparr>
     (PyFloat 0) False =
     {Inr \<lparr>dataset = \<lparr>images = [\<lparr>parent_name = ''CT_COVID'', file_name = ''a.png''\<rparr>,
                             \<lparr>parent_name = ''CT_NonCOVID'', file_name = ''b.png''\<rparr>]\<rparr>,
           sampler = SubsetRandomSampler [], batch_size = 8, drop_last = True\<rparr>} \<and>
   bagging_loader \<lparr>images = [\<lparr>parent_name = ''CT_COVID'', file_name = ''a.png''\<rparr>,
                             \<lparr>parent_name = ''CT_NonCOVID'', file_name = ''b.png''\<rparr>]\<rparr>
     (PyFloat (5 / 4)) False =
     {Inr \<lparr>dataset = \<lparr>images = [\<lparr>parent_name = ''CT_COVID'', file_name = ''a.png''\<rparr>,
                             \<lparr>parent_name = ''CT_NonCOVID'', file_name = ''b.png''\<rparr>]\<rparr>,
           sampler = SubsetRandomSampler [0, 1], batch_size = 8, drop_last = True\<rparr>,
      Inr \<lparr>dataset = \<lparr>images = [\<lparr>parent_name = ''CT_COVID'', file_name = ''a.png''\<rparr>,
                             \<lparr>parent_name = ''CT_NonCOVID'', file_name = ''b.png''\<rparr>]\<rparr>,
           sampler = SubsetRandomSampler [1, 0], batch_size = 8, drop_last = True\<rparr>}"
  by code_simp

section \<open>Properties of the whole evaluation\<close>

declare batch_sampler.simps [simp del]

lemma batch_sampler_short:
  "length order < bs \<Longrightarrow> batch_sampler bs True order = []"
  by (subst batch_sampler.simps) simp

lemma batch_sampler_full:
  "0 < bs \<Longrightarrow> bs \<le> length order \<Longrightarrow>
   batch_sampler bs dl order = take bs order # batch_sampler bs dl (drop bs order)"
  by (subst batch_sampler.simps) auto

lemma batch_sampler_drop_last:
  "0 < bs \<Longrightarrow>
   concat (batch_sampler bs True order) = take (bs * (length order div bs)) order \<and>
   (\<forall>b\<in>set (batch_sampler bs True order). length b = bs)"
proof (induction "length order" arbitrary: order rule: less_induct)
  case less
  show ?case
  proof (cases "length order < bs")
    case True
    then show ?thesis by (simp add: batch_sampler_short)
  next
    case False
    then have le: "bs \<le> length order" by simp
    have "length (drop bs order) < length order" using le less.prems by simp
    from less.hyps [OF this less.prems]
    have ih: "concat (batch_sampler bs True (drop bs order))
                = take (bs * ((length order - bs) div bs)) (drop bs order)"
         "\<forall>b\<in>set (batch_sampler bs True (drop bs order)). length b = bs"
      unfolding length_drop by (rule conjunct1, rule conjunct2)
    note unf = batch_sampler_full [OF less.prems le, of True]
    have d: "length order div bs = Suc ((length order - bs) div bs)"
      using less.prems le by (rule le_div_geq)
    have t: "take (bs * (length order div bs)) order
            = take bs order @ take (bs * ((length order - bs) div bs)) (drop bs order)"
      unfolding d mult_Suc_right by (rule take_add)
    have c: "concat (take bs order # batch_sampler bs True (drop bs order))
            = take (bs * (length order div bs)) order"
      unfolding t concat.simps ih(1) by (rule refl)
    have "length (take bs order) = bs" using le by simp
    then have l: "\<forall>b\<in>set (take bs order # batch_sampler bs True (drop bs order)). length b = bs"
      using ih(2) by (simp del: length_take)
    show ?thesis unfolding unf using c l by (rule conjI)
  qed
qed

lemma fetch_in_range:
  "\<forall>i\<in>set idxs. i < dataset_len ds \<and> readable (images ds ! i) \<Longrightarrow>
   fetch ds readable idxs =
     Inr (map (\<lambda>i. images ds ! i) idxs, map (\<lambda>i. Num (label_of (images ds ! i))) idxs)"
  by (induction idxs) (simp_all add: getitem_def dataset_len_def Let_def)

lemma run_batches_result:
  "\<forall>b\<in>set bs. length (fst b) \<noteq> 1 \<Longrightarrow>
   run_batches model k (map Inr bs) (lt, lg, pd) =
     Inr (lt @ concat (map snd bs),
          lg @ map (\<lambda>x. Rep_probability (model x)) (concat (map fst bs)),
          if bs = [] then pd
          else pd[k := Some (lg @ map (\<lambda>x. Rep_probability (model x)) (concat (map fst bs)))])"
proof (induction bs arbitrary: lt lg pd)
  case Nil
  then show ?case by simp
next
  case (Cons b bs)
  obtain input labels where b: "b = (input, labels)" by (cases b)
  show ?case using Cons b by (simp add: Let_def)
qed

lemma run_models_result:
  assumes "bs \<noteq> []" and "\<forall>b\<in>set bs. length (fst b) \<noteq> 1"
  shows "run_models (map Inr bs) (enumerate (length pre) ms)
           (lt, pre @ replicate (length ms) None) =
     Inr (if ms = [] then lt else concat (map snd bs),
          pre @ map (\<lambda>m. Some (map (\<lambda>x. Rep_probability (m x)) (concat (map fst bs)))) ms)"
proof (induction ms arbitrary: pre lt)
  case Nil
  then show ?case by simp
next
  case (Cons m ms)
  let ?v = "map (\<lambda>x. Rep_probability (m x)) (concat (map fst bs))"
  have rb: "run_batches m (length pre) (map Inr bs) ([], [], pre @ None # replicate (length ms) None) =
      Inr (concat (map snd bs), ?v, (pre @ [Some ?v]) @ replicate (length ms) None)"
    using run_batches_result [OF assms(2), of m "length pre" "[]" "[]"] assms(1)
    by simp
  have "run_models (map Inr bs) (enumerate (length pre) (m # ms))
          (lt, pre @ replicate (length (m # ms)) None)
        = run_models (map Inr bs) (enumerate (length (pre @ [Some ?v])) ms)
          (concat (map snd bs), (pre @ [Some ?v]) @ replicate (length ms) None)"
    using rb by (simp add: enumerate_simps)
  also have "\<dots> = Inr (if ms = [] then concat (map snd bs) else concat (map snd bs),
          (pre @ [Some ?v]) @ map (\<lambda>m. Some (map (\<lambda>x. Rep_probability (m x)) (concat (map fst bs)))) ms)"
    by (rule Cons.IH)
  finally show ?case by simp
qed

lemma models_bagging_result:
  assumes "bs \<noteq> []" and "\<forall>b\<in>set bs. length (fst b) \<noteq> 1" and "ms \<noteq> []"
  shows "models_bagging ms (map Inr bs) =
     aggregate32 (map Some (map (\<lambda>m. map (\<lambda>x. Rep_probability (m x)) (concat (map fst bs))) ms))
       (concat (map snd bs))"
  using run_models_result [OF assms(1,2), of "[]" ms "[]"] assms(3)
  by (simp add: models_bagging_def comp_def)

lemma sequential_pass_result:
  assumes "\<forall>p\<in>set (images testset). readable p"
  shows "\<exists>bs. sequential_pass \<lparr>dataset = testset, sampler = SequentialSampler,
                  batch_size = BATCH_SIZE, drop_last = True\<rparr> readable = map Inr bs \<and>
     (\<forall>b\<in>set bs. length (fst b) = BATCH_SIZE) \<and>
     concat (map fst bs)
       = take (BATCH_SIZE * (dataset_len testset div BATCH_SIZE)) (images testset) \<and>
     concat (map snd bs)
       = map (\<lambda>p. Num (label_of p))
           (take (BATCH_SIZE * (dataset_len testset div BATCH_SIZE)) (images testset))"
proof -
  let ?n = "dataset_len testset"
  let ?K = "BATCH_SIZE * (?n div BATCH_SIZE)"
  let ?B = "batch_sampler BATCH_SIZE True [0..<?n]"
  let ?img = "\<lambda>i. images testset ! i"
  let ?lab = "\<lambda>i. Num (label_of (images testset ! i))"
  let ?f = "\<lambda>b. (map ?img b, map ?lab b)"
  have pos: "0 < BATCH_SIZE" by (simp add: BATCH_SIZE_def)
  from batch_sampler_drop_last [OF pos, of "[0..<?n]"]
  have c: "concat ?B = take ?K [0..<?n]" and l: "\<forall>b\<in>set ?B. length b = BATCH_SIZE"
    by simp_all
  have "\<forall>b\<in>set ?B. set b \<subseteq> set (concat ?B)" by auto
  then have "\<forall>b\<in>set ?B. set b \<subseteq> set [0..<?n]"
    unfolding c using set_take_subset [of ?K "[0..<?n]"] by blast
  then have inr: "\<forall>b\<in>set ?B. \<forall>i\<in>set b. i < ?n" by fastforce
  have rd: "\<And>i. i < ?n \<Longrightarrow> readable (images testset ! i)"
    using assms by (simp add: dataset_len_def)
  have "\<forall>b\<in>set ?B. fetch testset readable b = Inr (?f b)"
  proof
    fix b assume "b \<in> set ?B"
    with inr rd have "\<forall>i\<in>set b. i < ?n \<and> readable (images testset ! i)" by blast
    then show "fetch testset readable b = Inr (?f b)" by (rule fetch_in_range)
  qed
  then have "map (fetch testset readable) ?B = map (\<lambda>b. Inr (?f b)) ?B"
    by (intro map_cong [OF refl]) blast
  then have sp: "sequential_pass \<lparr>dataset = testset, sampler = SequentialSampler,
                  batch_size = BATCH_SIZE, drop_last = True\<rparr> readable = map Inr (map ?f ?B)"
    by (simp add: sequential_pass_def comp_def)
  have "concat (map fst (map ?f ?B)) = map ?img (concat ?B)"
    by (simp add: map_concat comp_def)
  also have "\<dots> = take ?K (map ?img [0..<?n])"
    unfolding c by (rule take_map [symmetric])
  also have "map ?img [0..<?n] = images testset"
    unfolding dataset_len_def by (rule map_nth)
  finally have x: "concat (map fst (map ?f ?B)) = take ?K (images testset)" .
  have "concat (map snd (map ?f ?B)) = map ?lab (concat ?B)"
    by (simp add: map_concat comp_def)
  also have "\<dots> = take ?K (map ?lab [0..<?n])"
    unfolding c by (rule take_map [symmetric])
  also have "map ?lab [0..<?n] = map (\<lambda>p. Num (label_of p)) (map ?img [0..<?n])"
    unfolding map_map comp_def by (rule refl)
  also have "map ?img [0..<?n] = images testset"
    unfolding dataset_len_def by (rule map_nth)
  finally have y: "concat (map snd (map ?f ?B))
      = map (\<lambda>p. Num (label_of p)) (take ?K (images testset))"
    by (simp only: take_map)
  have bl: "\<forall>b\<in>set (map ?f ?B). length (fst b) = BATCH_SIZE" using l by simp
  show ?thesis by (rule exI [of _ "map ?f ?B"]) (intro conjI sp bl x y)
qed

lemma main_result:
  assumes "ms \<noteq> []" and "BATCH_SIZE \<le> dataset_len testset"
    and "\<forall>p\<in>set (images testset). readable p"
  shows "main ms readable testset =
     aggregate32
       (map Some (map (\<lambda>m. map (\<lambda>x. Rep_probability (m x))
          (take (BATCH_SIZE * (dataset_len testset div BATCH_SIZE)) (images testset))) ms))
       (map (\<lambda>p. Num (label_of p))
          (take (BATCH_SIZE * (dataset_len testset div BATCH_SIZE)) (images testset)))"
proof -
  let ?n = "dataset_len testset"
  let ?K = "BATCH_SIZE * (?n div BATCH_SIZE)"
  let ?L = "\<lparr>dataset = testset, sampler = SequentialSampler,
                  batch_size = BATCH_SIZE, drop_last = True\<rparr>"
  from sequential_pass_result [OF assms(3)] obtain bs where
    sp: "sequential_pass ?L readable = map Inr bs"
    and bl: "\<forall>b\<in>set bs. length (fst b) = BATCH_SIZE"
    and xs: "concat (map fst bs) = take ?K (images testset)"
    and ys: "concat (map snd bs) = map (\<lambda>p. Num (label_of p)) (take ?K (images testset))"
    by blast
  have pos: "0 < BATCH_SIZE" by (simp add: BATCH_SIZE_def)
  have "0 < ?n div BATCH_SIZE" using assms(2) pos by (simp add: div_greater_zero_iff)
  then have Kpos: "0 < ?K" using pos by simp
  have K: "?K \<le> ?n" by simp
  have lx: "length (take ?K (images testset)) = ?K" using K by (simp add: dataset_len_def)
  have ne: "bs \<noteq> []" using xs lx Kpos by auto
  have b1: "\<forall>b\<in>set bs. length (fst b) \<noteq> 1" using bl by (simp add: BATCH_SIZE_def)
  have tl: "test_loader testset = Inr ?L"
    by (simp add: test_loader_def DataLoader_init_def)
  have "main ms readable testset = models_bagging ms (map Inr bs)"
    by (simp add: main_def tl sp)
  also have "\<dots> = aggregate32
      (map Some (map (\<lambda>m. map (\<lambda>x. Rep_probability (m x)) (concat (map fst bs))) ms))
      (concat (map snd bs))"
    using ne b1 assms(1) by (rule models_bagging_result)
  finally show ?thesis unfolding xs ys .
qed

lemma Rep_constant_NaN: "Rep_probability (constant_member NaN x) = NaN"
  unfolding constant_member_def by (rule Abs_probability_inverse) simp

lemma Rep_constant_three_quarters:
  "Rep_probability (constant_member (Num (3 / 4)) x) = Num (3 / 4)"
proof -
  have f: "fl32 (3 / 4) = 3 / 4" by code_simp
  have "Num (3 / 4) \<in> {NaN} \<union> {Num x | x. 0 \<le> x \<and> x \<le> 1 \<and> fl32 x = x}"
    by (intro UnI2, rule CollectI, rule exI [of _ "3 / 4"]) (simp add: f)
  then show ?thesis
    unfolding constant_member_def by (rule Abs_probability_inverse)
qed

lemma card_hits_le: "card {i. i < M \<and> P i} \<le> M"
proof -
  have "card {i. i < M \<and> P i} \<le> card {..<M}"
    by (intro card_mono) auto
  then show ?thesis by simp
qed

lemma fl32_fraction_unit:
  assumes "k \<le> M" and "0 < M"
  shows "0 \<le> fl32 (of_nat k / of_nat M)" and "fl32 (of_nat k / of_nat M) \<le> 1"
proof -
  have "(of_nat k :: rat) \<le> of_nat M" using assms(1) by (simp only: of_nat_le_iff)
  then have "(of_nat k :: rat) / of_nat M \<le> 1" using assms(2) by (simp add: divide_le_eq_1)
  moreover have "(0::rat) \<le> of_nat k / of_nat M" by simp
  ultimately show "0 \<le> fl32 (of_nat k / of_nat M)" and "fl32 (of_nat k / of_nat M) \<le> 1"
    using fl32_unit by blast+
qed

lemma main_full_batches:
  assumes "ms \<noteq> []" and "BATCH_SIZE \<le> dataset_len testset"
    and "\<forall>p\<in>set (images testset). readable p"
    and "K = BATCH_SIZE * (dataset_len testset div BATCH_SIZE)"
  shows "\<exists>r. main ms readable testset = Inr r \<and>
           length (consensus_prob r) = K \<and> length (consensus_label r) = K \<and>
           (\<forall>i<K. consensus_prob r ! i
                    = float32_mean (map (\<lambda>m. Rep_probability (m (images testset ! i))) ms) \<and>
                  consensus_label r ! i = round32 (consensus_prob r ! i)) \<and>
           accuracy r =
             Num (fl32 (of_nat (card {i. i < K \<and>
                    eq32 (consensus_label r ! i) (Num (label_of (images testset ! i))) = 1})
                  / of_nat K))"
proof -
  let ?xs = "take K (images testset)"
  let ?vs = "map (\<lambda>m. map (\<lambda>x. Rep_probability (m x)) ?xs) ms"
  let ?ls = "map (\<lambda>p. Num (label_of p)) ?xs"
  have pos: "0 < BATCH_SIZE" by (simp add: BATCH_SIZE_def)
  have "0 < dataset_len testset div BATCH_SIZE"
    using assms(2) pos by (simp add: div_greater_zero_iff)
  then have Kpos: "0 < K" using pos assms(4) by simp
  have "K \<le> dataset_len testset" using assms(4) by simp
  then have lx: "length ?xs = K" by (simp add: dataset_len_def)
  have mr: "main ms readable testset = aggregate32 (map Some ?vs) ?ls"
    using main_result [OF assms(1,2,3)] unfolding assms(4) .
  have v1: "?vs \<noteq> []" using assms(1) by simp
  have v2: "\<forall>v\<in>set ?vs. length v = K" using lx by auto
  have v3: "length ?ls = K" using lx by simp
  from aggregate32_same_length [OF v1 v2 v3] obtain r where
    rr: "aggregate32 (map Some ?vs) ?ls = Inr r \<and>
           length (consensus_prob r) = K \<and> length (consensus_label r) = K \<and>
           (\<forall>i<K. consensus_prob r ! i = float32_mean (map (\<lambda>v. v ! i) ?vs) \<and>
                  consensus_label r ! i = round32 (consensus_prob r ! i)) \<and>
           accuracy r =
             (if K = 0 then NaN
              else Num (fl32 (of_nat (card {i. i < K \<and>
                      eq32 (consensus_label r ! i) (?ls ! i) = 1}) / of_nat K)))" ..
  note r1 = rr [THEN conjunct1]
    and r2 = rr [THEN conjunct2, THEN conjunct1]
    and r3 = rr [THEN conjunct2, THEN conjunct2, THEN conjunct1]
    and r4 = rr [THEN conjunct2, THEN conjunct2, THEN conjunct2, THEN conjunct1]
    and r5 = rr [THEN conjunct2, THEN conjunct2, THEN conjunct2, THEN conjunct2]
  have m: "main ms readable testset = Inr r" using mr r1 by (rule trans)
  have cols: "map (\<lambda>v. v ! i) ?vs = map (\<lambda>m. Rep_probability (m (images testset ! i))) ms"
    if "i < K" for i
    unfolding map_map comp_def by (rule map_cong [OF refl]) (use lx that in simp)
  have each: "\<forall>i<K. consensus_prob r ! i
                    = float32_mean (map (\<lambda>m. Rep_probability (m (images testset ! i))) ms) \<and>
                  consensus_label r ! i = round32 (consensus_prob r ! i)"
  proof (intro allI impI)
    fix i assume i: "i < K"
    from r4 i have "consensus_prob r ! i = float32_mean (map (\<lambda>v. v ! i) ?vs)"
      and "consensus_label r ! i = round32 (consensus_prob r ! i)" by blast+
    then show "consensus_prob r ! i
                    = float32_mean (map (\<lambda>m. Rep_probability (m (images testset ! i))) ms) \<and>
                  consensus_label r ! i = round32 (consensus_prob r ! i)"
      unfolding cols [OF i] by (rule conjI)
  qed
  have set_eq: "{i. i < K \<and> eq32 (consensus_label r ! i) (?ls ! i) = 1}
              = {i. i < K \<and> eq32 (consensus_label r ! i) (Num (label_of (images testset ! i))) = 1}"
  proof (intro Collect_cong conj_cong refl)
    fix i assume i: "i < K"
    then have "?ls ! i = Num (label_of (images testset ! i))" using lx by simp
    then show "eq32 (consensus_label r ! i) (?ls ! i) = 1
               \<longleftrightarrow> eq32 (consensus_label r ! i) (Num (label_of (images testset ! i))) = 1"
      by (simp only:)
  qed
  have acc: "accuracy r =
             Num (fl32 (of_nat (card {i. i < K \<and>
                    eq32 (consensus_label r ! i) (Num (label_of (images testset ! i))) = 1})
                  / of_nat K))"
    using r5 Kpos unfolding set_eq by simp
  show ?thesis
    by (rule exI [of _ r]) (intro conjI m r2 r3 each acc)
qed

lemma whole_batches:
  assumes "0 < M" and "BATCH_SIZE dvd M"
  shows "BATCH_SIZE \<le> M" and "M = BATCH_SIZE * (M div BATCH_SIZE)"
  using assms by (auto simp: dvd_imp_le)

text \<open>
  Claim C6, as amended. For a test set whose size \<open>M > 0\<close> is a multiple of the batch
  size 8 (the test loader drops an incomplete last batch) and whose images all open,
  every member's pass over the test loader returns a probability vector of length \<open>M\<close>,
  and for a non-empty ensemble the program returns exactly \<open>M\<close> consensus probabilities
  and \<open>M\<close> consensus labels, one for each sample and computed from the members' values at
  that sample, and one accuracy in the unit interval.
\<close>

theorem main_votes_on_every_sample:
  assumes "ms \<noteq> []" and "0 < dataset_len testset" and "BATCH_SIZE dvd dataset_len testset"
    and "\<forall>p\<in>set (images testset). readable p"
  shows "(\<exists>labels_tensor logits_tensor pd'.
            run_batches m k
              (sequential_pass \<lparr>dataset = testset, sampler = SequentialSampler,
                  batch_size = BATCH_SIZE, drop_last = True\<rparr> readable) ([], [], pd)
              = Inr (labels_tensor, logits_tensor, pd') \<and>
            length logits_tensor = dataset_len testset) \<and>
         (\<exists>r a. main ms readable testset = Inr r \<and>
           length (consensus_prob r) = dataset_len testset \<and>
           length (consensus_label r) = dataset_len testset \<and>
           (\<forall>i<dataset_len testset.
              consensus_prob r ! i
                = float32_mean (map (\<lambda>m. Rep_probability (m (images testset ! i))) ms) \<and>
              consensus_label r ! i = round32 (consensus_prob r ! i)) \<and>
           accuracy r = Num a \<and> 0 \<le> a \<and> a \<le> 1)"
proof -
  let ?M = "dataset_len testset"
  let ?L = "\<lparr>dataset = testset, sampler = SequentialSampler,
                  batch_size = BATCH_SIZE, drop_last = True\<rparr>"
  note w = whole_batches [OF assms(2,3)]
  from sequential_pass_result [OF assms(4)] obtain bs where
    sp: "sequential_pass ?L readable = map Inr bs"
    and bl: "\<forall>b\<in>set bs. length (fst b) = BATCH_SIZE"
    and cf: "concat (map fst bs) = take (BATCH_SIZE * (?M div BATCH_SIZE)) (images testset)"
    by blast
  have b1: "\<forall>b\<in>set bs. length (fst b) \<noteq> 1" using bl by (simp add: BATCH_SIZE_def)
  have "length (concat (map fst bs)) = ?M"
    unfolding cf w(2) [symmetric] by (simp add: dataset_len_def)
  then have len: "length ([] @ map (\<lambda>x. Rep_probability (m x)) (concat (map fst bs))) = ?M"
    by simp
  have member: "\<exists>labels_tensor logits_tensor pd'.
            run_batches m k (sequential_pass ?L readable) ([], [], pd)
              = Inr (labels_tensor, logits_tensor, pd') \<and>
            length logits_tensor = ?M"
    unfolding sp run_batches_result [OF b1] using len by blast
  from main_full_batches [OF assms(1) w(1) assms(4) w(2)] obtain r where
    rr: "main ms readable testset = Inr r \<and>
           length (consensus_prob r) = ?M \<and> length (consensus_label r) = ?M \<and>
           (\<forall>i<?M. consensus_prob r ! i
                    = float32_mean (map (\<lambda>m. Rep_probability (m (images testset ! i))) ms) \<and>
                  consensus_label r ! i = round32 (consensus_prob r ! i)) \<and>
           accuracy r =
             Num (fl32 (of_nat (card {i. i < ?M \<and>
                    eq32 (consensus_label r ! i) (Num (label_of (images testset ! i))) = 1})
                  / of_nat ?M))" ..
  note r1 = rr [THEN conjunct1]
    and r2 = rr [THEN conjunct2, THEN conjunct1]
    and r3 = rr [THEN conjunct2, THEN conjunct2, THEN conjunct1]
    and r4 = rr [THEN conjunct2, THEN conjunct2, THEN conjunct2, THEN conjunct1]
    and r5 = rr [THEN conjunct2, THEN conjunct2, THEN conjunct2, THEN conjunct2]
  let ?k = "card {i. i < ?M \<and>
                    eq32 (consensus_label r ! i) (Num (label_of (images testset ! i))) = 1}"
  have "?k \<le> ?M" by (rule card_hits_le)
  note a = fl32_fraction_unit [OF this assms(2)]
  have vote: "\<exists>r a. main ms readable testset = Inr r \<and>
           length (consensus_prob r) = ?M \<and> length (consensus_label r) = ?M \<and>
           (\<forall>i<?M. consensus_prob r ! i
                = float32_mean (map (\<lambda>m. Rep_probability (m (images testset ! i))) ms) \<and>
              consensus_label r ! i = round32 (consensus_prob r ! i)) \<and>
           accuracy r = Num a \<and> 0 \<le> a \<and> a \<le> 1"
    by (rule exI [of _ r], rule exI [of _ "fl32 (of_nat ?k / of_nat ?M)"])
       (intro conjI r1 r2 r3 r4 r5 a)
  from member vote show ?thesis by (rule conjI)
qed

theorem main_votes_on_every_sample_witness:
  "\<exists>r a. main [constant_member (Num (3 / 4))] all_readable
            \<lparr>images = replicate 16 \<lparr>parent_name = ''CT_COVID'', file_name = ''a.png''\<rparr>\<rparr> = Inr r \<and>
         length (consensus_label r) = 16 \<and> accuracy r = Num a \<and> 0 \<le> a \<and> a \<le> 1"
proof -
  let ?ts = "\<lparr>images = replicate 16 \<lparr>parent_name = ''CT_COVID'', file_name = ''a.png''\<rparr>\<rparr>"
  have n: "dataset_len ?ts = 16" by (simp add: dataset_len_def)
  have h: "[constant_member (Num (3 / 4))] \<noteq> []" "0 < dataset_len ?ts"
    "BATCH_SIZE dvd dataset_len ?ts" "\<forall>p\<in>set (images ?ts). all_readable p"
    unfolding n by (simp_all add: BATCH_SIZE_def all_readable_def)
  from main_votes_on_every_sample [OF h, THEN conjunct2, unfolded n] obtain r a where
    "main [constant_member (Num (3 / 4))] all_readable ?ts = Inr r"
    "length (consensus_label r) = 16" "accuracy r = Num a" "0 \<le> a" "a \<le> 1"
    by (elim exE conjE)
  then show ?thesis by (intro exI [of _ r] exI [of _ a] conjI)
qed

text \<open>
  Claim C6 as stated fails for \<open>M = 0\<close>: on an empty test set the member's pass returns
  a vector of length 0, \<^verbatim>\<open>pred_dic\<close> stays empty and line 280 raises \<^verbatim>\<open>TypeError\<close>, so
  that there is no accuracy.
\<close>

theorem empty_evaluation_counterexample:
  "run_batches (constant_member (Num (3 / 4))) 0
     (sequential_pass \<lparr>dataset = \<lparr>images = []\<rparr>, sampler = SequentialSampler,
         batch_size = BATCH_SIZE, drop_last = True\<rparr> all_readable) ([], [], [None])
     = Inr ([], [], [None]) \<and>
   main [constant_member (Num (3 / 4))] all_readable \<lparr>images = []\<rparr> = Inl TypeError"
proof -
  have bs: "batch_sampler BATCH_SIZE True [0..<0] = []"
    by (rule batch_sampler_short) (simp add: BATCH_SIZE_def)
  then have a: "main [constant_member (Num (3 / 4))] all_readable \<lparr>images = []\<rparr> = Inl TypeError"
    by (simp add: main_def test_loader_def DataLoader_init_def sequential_pass_def
        dataset_len_def models_bagging_def enumerate_simps aggregate32_def consensus32_def
        map_filter_simps)
  have b: "run_batches (constant_member (Num (3 / 4))) 0
     (sequential_pass \<lparr>dataset = \<lparr>images = []\<rparr>, sampler = SequentialSampler,
         batch_size = BATCH_SIZE, drop_last = True\<rparr> all_readable) ([], [], [None])
     = Inr ([], [], [None])"
    using bs by (simp add: sequential_pass_def dataset_len_def)
  from b a show ?thesis by (rule conjI)
qed

lemma foldl_fadd32_NaN: "foldl fadd32 NaN ps = NaN"
  by (induction ps) (simp_all add: fadd32_def)

lemma foldl_fadd32_has_NaN: "NaN \<in> set (p # ps) \<Longrightarrow> foldl fadd32 p ps = NaN"
proof (induction ps arbitrary: p)
  case Nil
  then show ?case by simp
next
  case (Cons q qs)
  show ?case
  proof (cases "p = NaN \<or> q = NaN")
    case True
    then have "fadd32 p q = NaN" by (auto simp: fadd32_def split: scalar.splits)
    then show ?thesis by (simp add: foldl_fadd32_NaN)
  next
    case False
    then have "NaN \<in> set (fadd32 p q # qs)" using Cons.prems by auto
    from Cons.IH [OF this] show ?thesis by simp
  qed
qed

lemma float32_mean_has_NaN: "NaN \<in> set ps \<Longrightarrow> float32_mean ps = NaN"
  by (cases ps) (simp_all add: float32_mean_def foldl_fadd32_has_NaN fdiv32_def)

text \<open>
  Claim C8, as amended. The vote checks no range. Every value that reaches it is an
  output of \<^verbatim>\<open>torch.sigmoid\<close>: a number in the unit interval or \<^verbatim>\<open>nan\<close>. A \<^verbatim>\<open>nan\<close>, the
  one value outside the unit interval that a member can contribute, is not rejected:
  the consensus probability and the consensus label of its sample are \<^verbatim>\<open>nan\<close>, the
  sample does not count as a hit in the accuracy, and a result is produced.
\<close>

theorem nan_probability_is_voted_on:
  assumes "ms \<noteq> []" and "0 < dataset_len testset" and "BATCH_SIZE dvd dataset_len testset"
    and "\<forall>p\<in>set (images testset). readable p"
    and "i < dataset_len testset" and "m \<in> set ms"
    and "Rep_probability (m (images testset ! i)) = NaN"
  shows "(\<exists>r. main ms readable testset = Inr r \<and>
           length (consensus_label r) = dataset_len testset \<and>
           consensus_prob r ! i = NaN \<and> consensus_label r ! i = NaN \<and>
           accuracy r =
             Num (fl32 (of_nat (card {j. j < dataset_len testset \<and> j \<noteq> i \<and>
                    eq32 (consensus_label r ! j) (Num (label_of (images testset ! j))) = 1})
                  / of_nat (dataset_len testset)))) \<and>
         (\<forall>m' x. Rep_probability (m' x) = NaN \<or>
            (\<exists>p. Rep_probability (m' x) = Num p \<and> 0 \<le> p \<and> p \<le> 1))"
proof -
  let ?M = "dataset_len testset"
  note w = whole_batches [OF assms(2,3)]
  from main_full_batches [OF assms(1) w(1) assms(4) w(2)] obtain r where
    rr: "main ms readable testset = Inr r \<and>
           length (consensus_prob r) = ?M \<and> length (consensus_label r) = ?M \<and>
           (\<forall>i<?M. consensus_prob r ! i
                    = float32_mean (map (\<lambda>m. Rep_probability (m (images testset ! i))) ms) \<and>
                  consensus_label r ! i = round32 (consensus_prob r ! i)) \<and>
           accuracy r =
             Num (fl32 (of_nat (card {i. i < ?M \<and>
                    eq32 (consensus_label r ! i) (Num (label_of (images testset ! i))) = 1})
                  / of_nat ?M))" ..
  note r1 = rr [THEN conjunct1]
    and r3 = rr [THEN conjunct2, THEN conjunct2, THEN conjunct1]
    and r4 = rr [THEN conjunct2, THEN conjunct2, THEN conjunct2, THEN conjunct1]
    and r5 = rr [THEN conjunct2, THEN conjunct2, THEN conjunct2, THEN conjunct2]
  have "NaN \<in> set (map (\<lambda>m. Rep_probability (m (images testset ! i))) ms)"
    using assms(6,7) by force
  then have "float32_mean (map (\<lambda>m. Rep_probability (m (images testset ! i))) ms) = NaN"
    by (rule float32_mean_has_NaN)
  with r4 assms(5) have p: "consensus_prob r ! i = NaN"
    and l: "consensus_label r ! i = round32 (consensus_prob r ! i)" by simp_all
  have l': "consensus_label r ! i = NaN" using l p by (simp add: round32_def)
  have set_eq: "{j. j < ?M \<and> eq32 (consensus_label r ! j) (Num (label_of (images testset ! j))) = 1}
      = {j. j < ?M \<and> j \<noteq> i \<and>
            eq32 (consensus_label r ! j) (Num (label_of (images testset ! j))) = 1}"
    using l' by (auto simp: eq32_def)
  have acc: "accuracy r =
             Num (fl32 (of_nat (card {j. j < ?M \<and> j \<noteq> i \<and>
                    eq32 (consensus_label r ! j) (Num (label_of (images testset ! j))) = 1})
                  / of_nat ?M))"
    using r5 unfolding set_eq .
  have first: "\<exists>r. main ms readable testset = Inr r \<and>
           length (consensus_label r) = ?M \<and>
           consensus_prob r ! i = NaN \<and> consensus_label r ! i = NaN \<and>
           accuracy r =
             Num (fl32 (of_nat (card {j. j < ?M \<and> j \<noteq> i \<and>
                    eq32 (consensus_label r ! j) (Num (label_of (images testset ! j))) = 1})
                  / of_nat ?M))"
    by (rule exI [of _ r]) (intro conjI r1 r3 p l' acc)
  have second: "\<forall>m' x. Rep_probability (m' x) = NaN \<or>
            (\<exists>p. Rep_probability (m' x) = Num p \<and> 0 \<le> p \<and> p \<le> 1)"
  proof (intro allI)
    fix m' :: member and x
    show "Rep_probability (m' x) = NaN \<or>
            (\<exists>p. Rep_probability (m' x) = Num p \<and> 0 \<le> p \<and> p \<le> 1)"
      using Rep_probability [of "m' x"] by auto
  qed
  from first second show ?thesis by (rule conjI)
qed

theorem nan_probability_is_voted_on_witness:
  "\<exists>r. main [constant_member (Num (3 / 4)), constant_member NaN] all_readable
          \<lparr>images = replicate 8 \<lparr>parent_name = ''CT_COVID'', file_name = ''a.png''\<rparr>\<rparr> = Inr r \<and>
       consensus_prob r ! 3 = NaN \<and> consensus_label r ! 3 = NaN"
proof -
  let ?ts = "\<lparr>images = replicate 8 \<lparr>parent_name = ''CT_COVID'', file_name = ''a.png''\<rparr>\<rparr>"
  let ?ms = "[constant_member (Num (3 / 4)), constant_member NaN]"
  have n: "dataset_len ?ts = 8" by (simp add: dataset_len_def)
  have h: "?ms \<noteq> []" "0 < dataset_len ?ts" "BATCH_SIZE dvd dataset_len ?ts"
    "\<forall>p\<in>set (images ?ts). all_readable p" "3 < dataset_len ?ts"
    "constant_member NaN \<in> set ?ms"
    "Rep_probability (constant_member NaN (images ?ts ! 3)) = NaN"
    unfolding n by (simp_all add: BATCH_SIZE_def all_readable_def Rep_constant_NaN)
  from nan_probability_is_voted_on [OF h, THEN conjunct1] obtain r where
    "main ?ms all_readable ?ts = Inr r" "consensus_prob r ! 3 = NaN"
    "consensus_label r ! 3 = NaN"
    by (elim exE conjE)
  then show ?thesis by (intro exI [of _ r] conjI)
qed

text \<open>
  Claim C8 as stated fails: a member whose probability is \<^verbatim>\<open>nan\<close> is accepted and voted
  on; the result has accuracy 0.
\<close>

theorem nan_probability_counterexample:
  "main [constant_member NaN] all_readable
     \<lparr>images = replicate 8 \<lparr>parent_name = ''CT_COVID'', file_name = ''a.png''\<rparr>\<rparr>
   = Inr \<lparr>consensus_prob = replicate 8 NaN, consensus_label = replicate 8 NaN,
          accuracy = Num 0\<rparr>"
proof -
  let ?ts = "\<lparr>images = replicate 8 \<lparr>parent_name = ''CT_COVID'', file_name = ''a.png''\<rparr>\<rparr>"
  have n: "dataset_len ?ts = 8" by (simp add: dataset_len_def)
  have h: "[constant_member NaN] \<noteq> []" "BATCH_SIZE \<le> dataset_len ?ts"
    "\<forall>p\<in>set (images ?ts). all_readable p"
    unfolding n by (simp_all add: BATCH_SIZE_def all_readable_def)
  have k: "BATCH_SIZE * (dataset_len ?ts div BATCH_SIZE) = 8"
    unfolding n by (simp add: BATCH_SIZE_def)
  have "main [constant_member NaN] all_readable ?ts
      = aggregate32 [Some (replicate 8 NaN)] (replicate 8 (Num 1))"
    unfolding main_result [OF h] k
    by (simp add: Rep_constant_NaN label_of_def)
  also have "\<dots> = Inr \<lparr>consensus_prob = replicate 8 NaN, consensus_label = replicate 8 NaN,
          accuracy = Num 0\<rparr>"
    by code_simp
  finally show ?thesis .
qed

end
